theory Spec2Isabelle
  imports Main "HOL-Library.Word" "HOL-Library.List_Lexorder" "HOL-Library.Char_ord"
begin

section \<open>Values, their order, and ordered keys\<close>

text \<open>
  A Noms value is either a JavaScript primitive (boolean, number, string) or an instance of
  \<^verbatim>\<open>ValueBase\<close>, which is identified by its content hash. The type parameter \<open>'p\<close> stands for
  the primitives and \<open>'h\<close> for hashes; both are totally ordered.
\<close>

datatype ('p, 'h) Value = Prim 'p | Obj 'h

text \<open>
  Modelled from the spec: \<^verbatim>\<open>compare.js\<close> is not among the sources. The spec asks of it only
  \<open>compare(a,b) \<in> {-1,0,1}\<close>, a total order, and \<open>equals(a,b)\<close>; primitives sort before
  \<^verbatim>\<open>ValueBase\<close> objects and objects sort by hash, which is the rule \<^verbatim>\<open>OrderedKey.compare\<close>
  of \<^verbatim>\<open>meta-sequence.js\<close> uses for keys.
\<close>

fun compare :: "('p::linorder, 'h::linorder) Value \<Rightarrow> ('p, 'h) Value \<Rightarrow> int" where
  "compare (Prim a) (Prim b) = (if a < b then - 1 else if a = b then 0 else 1)"
| "compare (Prim a) (Obj y) = - 1"
| "compare (Obj x) (Prim b) = 1"
| "compare (Obj x) (Obj y) = (if x < y then - 1 else if x = y then 0 else 1)"

definition equals :: "'a \<Rightarrow> 'a \<Rightarrow> bool" where
  "equals a b = (a = b)"

instantiation Value :: (linorder, linorder) linorder
begin

definition less_eq_Value :: "('a, 'b) Value \<Rightarrow> ('a, 'b) Value \<Rightarrow> bool" where
  "less_eq_Value a b = (compare a b \<le> 0)"

definition less_Value :: "('a, 'b) Value \<Rightarrow> ('a, 'b) Value \<Rightarrow> bool" where
  "less_Value a b = (compare a b < 0)"

instance
proof
  fix x y z :: "('a, 'b) Value"
  show "(x < y) = (x \<le> y \<and> \<not> y \<le> x)"
    by (cases x; cases y) (auto simp: less_eq_Value_def less_Value_def)
  show "x \<le> x"
    by (cases x) (auto simp: less_eq_Value_def)
  show "x \<le> y \<Longrightarrow> y \<le> z \<Longrightarrow> x \<le> z"
    by (cases x; cases y; cases z) (auto simp: less_eq_Value_def split: if_splits)
  show "x \<le> y \<Longrightarrow> y \<le> x \<Longrightarrow> x = y"
    by (cases x; cases y) (auto simp: less_eq_Value_def split: if_splits)
  show "x \<le> y \<or> y \<le> x"
    by (cases x; cases y) (auto simp: less_eq_Value_def)
qed

end

text \<open>
  The primitives used in concrete scenarios: booleans, numbers (the integers among them) and
  strings, ordered by kind and then by value. The theorems below hold for any totally ordered
  type of primitives.
\<close>

datatype prim = JsBool bool | JsNumber int | JsString string

fun prim_le :: "prim \<Rightarrow> prim \<Rightarrow> bool" where
  "prim_le (JsBool a) (JsBool b) = (a \<le> b)"
| "prim_le (JsBool a) (JsNumber b) = True"
| "prim_le (JsBool a) (JsString b) = True"
| "prim_le (JsNumber a) (JsBool b) = False"
| "prim_le (JsNumber a) (JsNumber b) = (a \<le> b)"
| "prim_le (JsNumber a) (JsString b) = True"
| "prim_le (JsString a) (JsBool b) = False"
| "prim_le (JsString a) (JsNumber b) = False"
| "prim_le (JsString a) (JsString b) = (a \<le> b)"

instantiation prim :: linorder
begin

definition less_eq_prim :: "prim \<Rightarrow> prim \<Rightarrow> bool" where
  "less_eq_prim a b = prim_le a b"

definition less_prim :: "prim \<Rightarrow> prim \<Rightarrow> bool" where
  "less_prim a b = (prim_le a b \<and> \<not> prim_le b a)"

instance
proof
  fix x y z :: prim
  show "(x < y) = (x \<le> y \<and> \<not> y \<le> x)"
    by (simp add: less_eq_prim_def less_prim_def)
  show "x \<le> x"
    by (cases x) (auto simp: less_eq_prim_def)
  show "x \<le> y \<Longrightarrow> y \<le> z \<Longrightarrow> x \<le> z"
    by (cases x; cases y; cases z) (auto simp: less_eq_prim_def)
  show "x \<le> y \<Longrightarrow> y \<le> x \<Longrightarrow> x = y"
    by (cases x; cases y) (auto simp: less_eq_prim_def)
  show "x \<le> y \<or> y \<le> x"
    by (cases x; cases y) (auto simp: less_eq_prim_def)
qed

end

text \<open>
  \<^verbatim>\<open>OrderedKey\<close> of \<^verbatim>\<open>meta-sequence.js\<close>: the constructor orders a primitive by value and a
  \<^verbatim>\<open>ValueBase\<close> by its hash; \<^verbatim>\<open>fromHash\<close> builds a key that has only a hash.
  \<^verbatim>\<open>Hash.compare\<close> is the order of \<open>'h\<close>.
\<close>

datatype ('p, 'h) OrderedKey =
  OrderedKey (isOrderedByValue: bool) (v: "('p, 'h) Value option") (h: "'h option")

datatype error =
    InvariantError
  | NotNullError
  | TypeError
  | Unsupported
  | EmptySequenceError
  | InvalidWhence
  | Busy
  | Panic

fun new_OrderedKey :: "('p, 'h) Value \<Rightarrow> ('p, 'h) OrderedKey" where
  "new_OrderedKey (Obj x) = OrderedKey False (Some (Obj x)) (Some x)"
| "new_OrderedKey (Prim a) = OrderedKey True (Some (Prim a)) None"

definition fromHash :: "'h \<Rightarrow> ('p, 'h) OrderedKey" where
  "fromHash x = OrderedKey False None (Some x)"

definition notNull :: "'a option \<Rightarrow> error + 'a" where
  "notNull x = (case x of None \<Rightarrow> Inl NotNullError | Some y \<Rightarrow> Inr y)"

definition key_value :: "('p, 'h) OrderedKey \<Rightarrow> error + ('p, 'h) Value" where
  "key_value k = notNull (v k)"

definition Hash_compare :: "'h::linorder \<Rightarrow> 'h \<Rightarrow> int" where
  "Hash_compare x y = (if x < y then - 1 else if x = y then 0 else 1)"

definition key_compare ::
  "('p::linorder, 'h::linorder) OrderedKey \<Rightarrow> ('p, 'h) OrderedKey \<Rightarrow> error + int" where
  "key_compare this other =
     (if isOrderedByValue this \<and> isOrderedByValue other then
        (case notNull (v this) of Inl e \<Rightarrow> Inl e
         | Inr a \<Rightarrow> (case notNull (v other) of Inl e \<Rightarrow> Inl e | Inr b \<Rightarrow> Inr (compare a b)))
      else if isOrderedByValue this then Inr (- 1)
      else if isOrderedByValue other then Inr 1
      else (case notNull (h this) of Inl e \<Rightarrow> Inl e
            | Inr x \<Rightarrow> (case notNull (h other) of Inl e \<Rightarrow> Inl e
                        | Inr y \<Rightarrow> Inr (Hash_compare x y))))"

section \<open>Building the data of a Map and of a Set (\<^verbatim>\<open>map.js\<close>, \<^verbatim>\<open>set.js\<close>)\<close>









section \<open>Sequences (\<^verbatim>\<open>leaf-sequence.js\<close>, \<^verbatim>\<open>meta-sequence.js\<close> and the four leaf classes)\<close>

text \<open>
  One constructor per sequence class. A \<^verbatim>\<open>MetaTuple\<close> carries its ref (the target hash), its
  key, its number of leaves and, in \<open>child\<close>, what \<^verbatim>\<open>getChildSequence\<close> resolves to: the cached
  child collection's sequence or the sequence the value reader returns for the ref; \<open>None\<close>
  when there is neither.
\<close>

datatype ('p, 'h) Sequence =
    ListLeafSequence "('p, 'h) Value list"
  | MapLeafSequence "(('p, 'h) Value \<times> ('p, 'h) Value) list"
  | SetLeafSequence "('p, 'h) Value list"
  | BlobLeafSequence "8 word list"
  | EmptySequence
  | MetaSequence "('p, 'h) MetaTuple list"
and ('p, 'h) MetaTuple =
  MetaTuple (ref: 'h) (key: "('p, 'h) OrderedKey") (numLeaves: int)
            (child: "('p, 'h) Sequence option")

text \<open>What \<^verbatim>\<open>sequence.items[i]\<close> can hold.\<close>

datatype ('p, 'h) Item =
    ValueItem "('p, 'h) Value"
  | EntryItem "('p, 'h) Value \<times> ('p, 'h) Value"
  | ByteItem "8 word"
  | TupleItem "('p, 'h) MetaTuple"

fun items :: "('p, 'h) Sequence \<Rightarrow> ('p, 'h) Item list" where
  "items (ListLeafSequence xs) = map ValueItem xs"
| "items (MapLeafSequence es) = map EntryItem es"
| "items (SetLeafSequence xs) = map ValueItem xs"
| "items (BlobLeafSequence bs) = map ByteItem bs"
| "items EmptySequence = []"
| "items (MetaSequence ts) = map TupleItem ts"

definition seq_length :: "('p, 'h) Sequence \<Rightarrow> int" where
  "seq_length s = int (length (items s))"

fun isMeta :: "('p, 'h) Sequence \<Rightarrow> bool" where
  "isMeta (MetaSequence ts) = True"
| "isMeta _ = False"

text \<open>
  The constructor of \<^verbatim>\<open>MetaSequence\<close> precomputes \<^verbatim>\<open>_offsets\<close>, the running sums of
  \<^verbatim>\<open>numLeaves\<close>.
\<close>

fun offsets_from :: "int \<Rightarrow> ('p, 'h) MetaTuple list \<Rightarrow> int list" where
  "offsets_from cum [] = []"
| "offsets_from cum (t # ts) = (cum + numLeaves t) # offsets_from (cum + numLeaves t) ts"

definition offsets :: "('p, 'h) MetaTuple list \<Rightarrow> int list" where
  "offsets ts = offsets_from 0 ts"

text \<open>
  JavaScript reads \<^verbatim>\<open>undefined\<close> from an array outside its range; a number that may be
  \<^verbatim>\<open>undefined\<close> (and then \<^verbatim>\<open>NaN\<close> in arithmetic) is an \<open>int option\<close>.
\<close>

definition array_get :: "'a list \<Rightarrow> int \<Rightarrow> 'a option" where
  "array_get xs i = (if 0 \<le> i \<and> i < int (length xs) then Some (xs ! nat i) else None)"

fun seq_numLeaves :: "('p, 'h) Sequence \<Rightarrow> int option" where
  "seq_numLeaves (MetaSequence ts) = array_get (offsets ts) (int (length (offsets ts)) - 1)"
| "seq_numLeaves s = Some (seq_length s)"

fun cumulativeNumberOfLeaves :: "('p, 'h) Sequence \<Rightarrow> int \<Rightarrow> int option" where
  "cumulativeNumberOfLeaves (MetaSequence ts) i = array_get (offsets ts) i"
| "cumulativeNumberOfLeaves s i = Some i"

definition mt_getChildSequence :: "('p, 'h) MetaTuple \<Rightarrow> error + ('p, 'h) Sequence" where
  "mt_getChildSequence mt = (case child mt of None \<Rightarrow> Inl InvariantError | Some c \<Rightarrow> Inr c)"

fun getChildSequence :: "('p, 'h) Sequence \<Rightarrow> int \<Rightarrow> error + ('p, 'h) Sequence option" where
  "getChildSequence (MetaSequence ts) i =
     (case array_get ts i of None \<Rightarrow> Inl TypeError
      | Some mt \<Rightarrow> (case mt_getChildSequence mt of Inl e \<Rightarrow> Inl e | Inr c \<Rightarrow> Inr (Some c)))"
| "getChildSequence s i = Inr None"

text \<open>
  \<^verbatim>\<open>getKey\<close>: list and blob leaves throw \<^verbatim>\<open>unsupported\<close>, the empty sequence throws, map and
  set leaves wrap the item's key, a meta sequence reads the tuple's key. At an index outside the
  items, a map leaf and a meta sequence read a property of \<^verbatim>\<open>undefined\<close>, which throws a
  \<^verbatim>\<open>TypeError\<close>; a set leaf does not throw: it returns \<^verbatim>\<open>new OrderedKey(undefined)\<close>, a key ordered
  by value that holds no value and no hash.
\<close>

fun getKey :: "('p, 'h) Sequence \<Rightarrow> int \<Rightarrow> error + ('p, 'h) OrderedKey" where
  "getKey (ListLeafSequence xs) i = Inl Unsupported"
| "getKey (BlobLeafSequence bs) i = Inl Unsupported"
| "getKey EmptySequence i = Inl EmptySequenceError"
| "getKey (MapLeafSequence es) i =
     (case array_get es i of None \<Rightarrow> Inl TypeError | Some e \<Rightarrow> Inr (new_OrderedKey (fst e)))"
| "getKey (SetLeafSequence xs) i =
     (case array_get xs i of None \<Rightarrow> Inr (OrderedKey True None None)
      | Some x \<Rightarrow> Inr (new_OrderedKey x))"
| "getKey (MetaSequence ts) i =
     (case array_get ts i of None \<Rightarrow> Inl TypeError | Some mt \<Rightarrow> Inr (key mt))"

section \<open>Binary search\<close>

text \<open>
  Modelled from the spec: \<^verbatim>\<open>binary-search.js\<close> is not among the sources. The cursor calls
  \<^verbatim>\<open>search(length, pred)\<close> to "binary-search for the smallest \<open>i\<close>" at which the predicate
  holds, and gets \<open>length\<close> when there is none. The predicate may throw.
\<close>

function search_loop :: "(int \<Rightarrow> error + bool) \<Rightarrow> int \<Rightarrow> int \<Rightarrow> error + int" where
  "search_loop f lo hi =
     (if lo < hi then
        (let m = lo + (hi - lo) div 2 in
         case f m of Inl e \<Rightarrow> Inl e
         | Inr b \<Rightarrow> if \<not> b then search_loop f (m + 1) hi else search_loop f lo m)
      else Inr lo)"
  by pat_completeness auto
termination
  by (relation "measure (\<lambda>(f, lo, hi). nat (hi - lo))") auto

declare search_loop.simps [simp del]

definition search :: "int \<Rightarrow> (int \<Rightarrow> error + bool) \<Rightarrow> error + int" where
  "search n f = search_loop f 0 n"

section \<open>The sequence cursor (\<^verbatim>\<open>sequence-cursor.js\<close>)\<close>

datatype ('p, 'h) SequenceCursor =
  SequenceCursor (parent: "('p, 'h) SequenceCursor option") (sequence: "('p, 'h) Sequence")
                 (idx: int)

definition new_SequenceCursor ::
  "('p, 'h) SequenceCursor option \<Rightarrow> ('p, 'h) Sequence \<Rightarrow> int \<Rightarrow> ('p, 'h) SequenceCursor" where
  "new_SequenceCursor p s i =
     SequenceCursor p s (if i < 0 then max 0 (seq_length s + i) else i)"

definition set_idx :: "('p, 'h) SequenceCursor \<Rightarrow> int \<Rightarrow> ('p, 'h) SequenceCursor" where
  "set_idx c i = SequenceCursor (parent c) (sequence c) i"

definition set_parent ::
  "('p, 'h) SequenceCursor \<Rightarrow> ('p, 'h) SequenceCursor \<Rightarrow> ('p, 'h) SequenceCursor" where
  "set_parent c p = SequenceCursor (Some p) (sequence c) (idx c)"

definition cursor_length :: "('p, 'h) SequenceCursor \<Rightarrow> int" where
  "cursor_length c = seq_length (sequence c)"

definition cursor_getChildSequence ::
  "('p, 'h) SequenceCursor \<Rightarrow> error + ('p, 'h) Sequence option" where
  "cursor_getChildSequence c = getChildSequence (sequence c) (idx c)"

definition sync :: "('p, 'h) SequenceCursor \<Rightarrow> error + ('p, 'h) SequenceCursor" where
  "sync c =
     (case parent c of None \<Rightarrow> Inl InvariantError
      | Some p \<Rightarrow>
          (case cursor_getChildSequence p of Inl e \<Rightarrow> Inl e
           | Inr None \<Rightarrow> Inl NotNullError
           | Inr (Some s) \<Rightarrow> Inr (SequenceCursor (parent c) s (idx c))))"

definition valid :: "('p, 'h) SequenceCursor \<Rightarrow> bool" where
  "valid c = (idx c \<ge> 0 \<and> idx c < cursor_length c)"

definition getCurrent :: "('p, 'h) SequenceCursor \<Rightarrow> error + ('p, 'h) Item" where
  "getCurrent c =
     (if valid c then
        (case array_get (items (sequence c)) (idx c) of None \<Rightarrow> Inl TypeError | Some x \<Rightarrow> Inr x)
      else Inl InvariantError)"

definition getCurrentKey :: "('p, 'h) SequenceCursor \<Rightarrow> error + ('p, 'h) OrderedKey" where
  "getCurrentKey c = (if valid c then getKey (sequence c) (idx c) else Inl InvariantError)"

definition indexInChunk :: "('p, 'h) SequenceCursor \<Rightarrow> int" where
  "indexInChunk c = idx c"

fun depth :: "('p, 'h) SequenceCursor \<Rightarrow> nat" where
  "depth (SequenceCursor p s i) = 1 + (case p of None \<Rightarrow> 0 | Some q \<Rightarrow> depth q)"

definition js_less :: "int option \<Rightarrow> int option \<Rightarrow> bool" where
  "js_less a b = (case a of None \<Rightarrow> False
                  | Some x \<Rightarrow> (case b of None \<Rightarrow> False | Some y \<Rightarrow> x < y))"

definition js_minus :: "int option \<Rightarrow> int option \<Rightarrow> int option" where
  "js_minus a b = (case a of None \<Rightarrow> None
                   | Some x \<Rightarrow> (case b of None \<Rightarrow> None | Some y \<Rightarrow> Some (x - y)))"

definition js_plus :: "int option \<Rightarrow> int option \<Rightarrow> int option" where
  "js_plus a b = (case a of None \<Rightarrow> None
                  | Some x \<Rightarrow> (case b of None \<Rightarrow> None | Some y \<Rightarrow> Some (x + y)))"

text \<open>
  \<^verbatim>\<open>advanceToOffset\<close>; the predicate given to \<^verbatim>\<open>search\<close> does not throw, so neither does the
  search, and the error branch only keeps the function total.
\<close>

definition advanceToOffset ::
  "('p, 'h) SequenceCursor \<Rightarrow> int option \<Rightarrow> int option \<times> ('p, 'h) SequenceCursor" where
  "advanceToOffset c i =
     (let found = (case search (cursor_length c)
                         (\<lambda>j. Inr (js_less i (cumulativeNumberOfLeaves (sequence c) j)))
                   of Inl e \<Rightarrow> cursor_length c | Inr j \<Rightarrow> j);
          k = (if isMeta (sequence c) \<and> found = cursor_length c
               then cursor_length c - 1 else found)
      in (if k > 0 then cumulativeNumberOfLeaves (sequence c) (k - 1) else Some 0,
          set_idx c k))"

definition advanceLocal ::
  "bool \<Rightarrow> ('p, 'h) SequenceCursor \<Rightarrow> bool \<times> ('p, 'h) SequenceCursor" where
  "advanceLocal allowPastEnd c =
     (if idx c = cursor_length c then (False, c)
      else if idx c < cursor_length c - 1 then (True, set_idx c (idx c + 1))
      else if allowPastEnd then (False, set_idx c (idx c + 1))
      else (False, c))"

definition canAdvanceLocal :: "('p, 'h) SequenceCursor \<Rightarrow> bool" where
  "canAdvanceLocal c = (idx c < cursor_length c - 1)"

fun advanceMaybeAllowPastEnd ::
  "bool \<Rightarrow> ('p, 'h) SequenceCursor \<Rightarrow> error + bool \<times> ('p, 'h) SequenceCursor" where
  "advanceMaybeAllowPastEnd allowPastEnd (SequenceCursor p s i) =
     (if i = seq_length s then Inr (False, SequenceCursor p s i)
      else
        (case advanceLocal allowPastEnd (SequenceCursor p s i) of
           (True, c1) \<Rightarrow> Inr (True, c1)
         | (False, c1) \<Rightarrow>
             (case p of None \<Rightarrow> Inr (False, c1)
              | Some q \<Rightarrow>
                  (case advanceMaybeAllowPastEnd False q of Inl e \<Rightarrow> Inl e
                   | Inr (True, q') \<Rightarrow>
                       (case sync (set_parent c1 q') of Inl e \<Rightarrow> Inl e
                        | Inr c2 \<Rightarrow> Inr (True, set_idx c2 0))
                   | Inr (False, q') \<Rightarrow> Inr (False, set_parent c1 q')))))"

definition advance :: "('p, 'h) SequenceCursor \<Rightarrow> error + bool \<times> ('p, 'h) SequenceCursor" where
  "advance c = advanceMaybeAllowPastEnd True c"

definition advanceChunk ::
  "('p, 'h) SequenceCursor \<Rightarrow> error + bool \<times> ('p, 'h) SequenceCursor" where
  "advanceChunk c = advanceMaybeAllowPastEnd True (set_idx c (cursor_length c - 1))"

fun retreatMaybeAllowBeforeStart ::
  "bool \<Rightarrow> ('p, 'h) SequenceCursor \<Rightarrow> error + bool \<times> ('p, 'h) SequenceCursor" where
  "retreatMaybeAllowBeforeStart allowBeforeStart (SequenceCursor p s i) =
     (if i > 0 then Inr (True, SequenceCursor p s (i - 1))
      else if i = - 1 then Inr (False, SequenceCursor p s i)
      else if i \<noteq> 0 then Inl InvariantError
      else
        (case p of
           None \<Rightarrow>
             Inr (False, if allowBeforeStart then SequenceCursor p s (i - 1)
                         else SequenceCursor p s i)
         | Some q \<Rightarrow>
             (case retreatMaybeAllowBeforeStart False q of Inl e \<Rightarrow> Inl e
              | Inr (True, q') \<Rightarrow>
                  (case sync (SequenceCursor (Some q') s i) of Inl e \<Rightarrow> Inl e
                   | Inr c2 \<Rightarrow> Inr (True, set_idx c2 (cursor_length c2 - 1)))
              | Inr (False, q') \<Rightarrow>
                  Inr (False, if allowBeforeStart then SequenceCursor (Some q') s (i - 1)
                              else SequenceCursor (Some q') s i))))"

definition retreat :: "('p, 'h) SequenceCursor \<Rightarrow> error + bool \<times> ('p, 'h) SequenceCursor" where
  "retreat c = retreatMaybeAllowBeforeStart True c"

definition seekTo ::
  "('p::linorder, 'h::linorder) OrderedKey \<Rightarrow> bool \<Rightarrow> ('p, 'h) SequenceCursor
   \<Rightarrow> error + bool \<times> ('p, 'h) SequenceCursor" where
  "seekTo k lastPositionIfNotfound c =
     (case search (cursor_length c)
             (\<lambda>i. case getKey (sequence c) i of Inl e \<Rightarrow> Inl e
                   | Inr ki \<Rightarrow> (case key_compare ki k of Inl e \<Rightarrow> Inl e
                                | Inr r \<Rightarrow> Inr (r \<ge> 0)))
      of Inl e \<Rightarrow> Inl e
      | Inr j \<Rightarrow>
          if j = cursor_length c \<and> lastPositionIfNotfound then
            (if j > 0 then Inr (j - 1 < cursor_length c, set_idx c (j - 1))
             else Inl InvariantError)
          else Inr (j < cursor_length c, set_idx c j))"

text \<open>
  \<^verbatim>\<open>newCursorAtIndex\<close>: the loop descends from the root, one cursor per level, until a leaf
  answers \<^verbatim>\<open>null\<close> for its child sequence. The child of a meta sequence is a smaller tree, so
  the loop terminates.
\<close>

lemma size_child_less:
  assumes "getChildSequence s i = Inr (Some c)"
  shows "size c < size s"
proof (cases s)
  case (MetaSequence ts)
  with assms obtain mt where mt: "array_get ts i = Some mt" "child mt = Some c"
    by (auto simp: mt_getChildSequence_def split: option.splits sum.splits)
  then have "mt \<in> set ts"
    by (auto simp: array_get_def split: if_splits)
  then have "size mt \<le> size_list size ts"
    by (simp add: size_list_estimation')
  moreover have "size c < size mt"
    using mt(2) by (cases mt) simp
  ultimately show ?thesis using MetaSequence by simp
qed (use assms in auto)

function newCursorAtIndex_loop ::
  "('p, 'h) SequenceCursor option \<Rightarrow> ('p, 'h) Sequence \<Rightarrow> int option
   \<Rightarrow> error + ('p, 'h) SequenceCursor" where
  "newCursorAtIndex_loop cursor childSeq i =
     (case advanceToOffset (new_SequenceCursor cursor childSeq 0) i of
        (off, c) \<Rightarrow>
          (case getChildSequence childSeq (idx c) of Inl e \<Rightarrow> Inl e
           | Inr None \<Rightarrow> Inr c
           | Inr (Some cs) \<Rightarrow> newCursorAtIndex_loop (Some c) cs (js_minus i off)))"
  by pat_completeness auto
termination
  by (relation "measure (\<lambda>(cursor, childSeq, i). size childSeq)")
     (auto simp: size_child_less)

declare newCursorAtIndex_loop.simps [simp del]

definition newCursorAtIndex ::
  "('p, 'h) Sequence \<Rightarrow> int \<Rightarrow> error + ('p, 'h) SequenceCursor" where
  "newCursorAtIndex s i = newCursorAtIndex_loop None s (Some i)"

section \<open>Cursors by key (\<^verbatim>\<open>ordered-sequence.js\<close>)\<close>

function newCursorAtKey_loop ::
  "('p::linorder, 'h::linorder) SequenceCursor option \<Rightarrow> ('p, 'h) Sequence
   \<Rightarrow> ('p, 'h) OrderedKey option \<Rightarrow> bool \<Rightarrow> bool \<Rightarrow> error + ('p, 'h) SequenceCursor" where
  "newCursorAtKey_loop cursor childSeq k forInsertion lst =
     (let c0 = new_SequenceCursor cursor childSeq (if lst then - 1 else 0);
          sought = (case k of None \<Rightarrow> Inr (True, c0)
                    | Some k' \<Rightarrow> seekTo k' (forInsertion \<and> isMeta childSeq) c0)
      in case sought of Inl e \<Rightarrow> Inl e
         | Inr (False, c) \<Rightarrow> Inr c
         | Inr (True, c) \<Rightarrow>
             (case getChildSequence childSeq (idx c) of Inl e \<Rightarrow> Inl e
              | Inr None \<Rightarrow> Inr c
              | Inr (Some cs) \<Rightarrow> newCursorAtKey_loop (Some c) cs k forInsertion lst))"
  by pat_completeness auto
termination
  by (relation "measure (\<lambda>(cursor, childSeq, k, forInsertion, lst). size childSeq)")
     (auto simp: size_child_less)

declare newCursorAtKey_loop.simps [simp del]

definition newCursorAtKey ::
  "('p::linorder, 'h::linorder) Sequence \<Rightarrow> ('p, 'h) OrderedKey option \<Rightarrow> bool \<Rightarrow> bool
   \<Rightarrow> error + ('p, 'h) SequenceCursor" where
  "newCursorAtKey s k forInsertion lst = newCursorAtKey_loop None s k forInsertion lst"

definition newCursorAtValue ::
  "('p::linorder, 'h::linorder) Sequence \<Rightarrow> ('p, 'h) Value option \<Rightarrow> bool \<Rightarrow> bool
   \<Rightarrow> error + ('p, 'h) SequenceCursor" where
  "newCursorAtValue s val forInsertion lst =
     newCursorAtKey s (map_option new_OrderedKey val) forInsertion lst"

section \<open>Collections (\<^verbatim>\<open>collection.js\<close>)\<close>

text \<open>
  A collection wraps its root sequence; \<^verbatim>\<open>fromSequence\<close> builds one around a sequence. The
  operations that rebuild the tree call \<^verbatim>\<open>chunkSequence\<close> of \<^verbatim>\<open>sequence-chunker.js\<close>, which
  is not among the sources: they take it as the parameter \<open>chunkSequence\<close>, applied to the
  cursor, the items to insert and the number of items to remove.
\<close>

datatype ('p, 'h) Collection = Collection (col_sequence: "('p, 'h) Sequence")

definition fromSequence :: "('p, 'h) Sequence \<Rightarrow> ('p, 'h) Collection" where
  "fromSequence s = Collection s"

type_synonym ('p, 'h) chunkSequenceFn =
  "('p, 'h) SequenceCursor \<Rightarrow> ('p, 'h) Item list \<Rightarrow> int \<Rightarrow> error + ('p, 'h) Sequence"

definition splice_with ::
  "('p, 'h) chunkSequenceFn \<Rightarrow> ('p, 'h) SequenceCursor \<Rightarrow> ('p, 'h) Item list \<Rightarrow> int
   \<Rightarrow> error + ('p, 'h) Collection" where
  "splice_with chunkSequence cursor ins remove =
     (case chunkSequence cursor ins remove of Inl e \<Rightarrow> Inl e
      | Inr s \<Rightarrow> Inr (fromSequence s))"

section \<open>Map (\<^verbatim>\<open>map.js\<close>)\<close>

text \<open>\<^verbatim>\<open>entry[KEY]\<close> and \<^verbatim>\<open>entry[VALUE]\<close> of the item under a cursor.\<close>

fun entry_of :: "('p, 'h) Item \<Rightarrow> error + ('p, 'h) Value \<times> ('p, 'h) Value" where
  "entry_of (EntryItem e) = Inr e"
| "entry_of _ = Inl TypeError"

text \<open>The test \<^verbatim>\<open>cursor.valid && equals(cursor.getCurrentKey().value(), key)\<close>.\<close>

definition cursor_at_key ::
  "('p, 'h) SequenceCursor \<Rightarrow> ('p, 'h) Value \<Rightarrow> error + bool" where
  "cursor_at_key cursor k =
     (if valid cursor then
        (case getCurrentKey cursor of Inl e \<Rightarrow> Inl e
         | Inr ck \<Rightarrow> (case key_value ck of Inl e \<Rightarrow> Inl e | Inr x \<Rightarrow> Inr (equals x k)))
      else Inr False)"

definition Map_has ::
  "('p::linorder, 'h::linorder) Collection \<Rightarrow> ('p, 'h) Value \<Rightarrow> error + bool" where
  "Map_has this k =
     (case newCursorAtValue (col_sequence this) (Some k) False False of Inl e \<Rightarrow> Inl e
      | Inr cursor \<Rightarrow> cursor_at_key cursor k)"


definition Map_set ::
  "('p::linorder, 'h::linorder) chunkSequenceFn \<Rightarrow> ('p, 'h) Collection \<Rightarrow> ('p, 'h) Value
   \<Rightarrow> ('p, 'h) Value \<Rightarrow> error + ('p, 'h) Collection" where
  "Map_set chunkSequence this k val =
     (case newCursorAtValue (col_sequence this) (Some k) True False of Inl e \<Rightarrow> Inl e
      | Inr cursor \<Rightarrow>
          (case cursor_at_key cursor k of Inl e \<Rightarrow> Inl e
           | Inr True \<Rightarrow>
               (case getCurrent cursor of Inl e \<Rightarrow> Inl e
                | Inr it \<Rightarrow>
                    (case entry_of it of Inl e \<Rightarrow> Inl e
                     | Inr entry \<Rightarrow>
                         if equals (snd entry) val then Inr this
                         else splice_with chunkSequence cursor [EntryItem (k, val)] 1))
           | Inr False \<Rightarrow> splice_with chunkSequence cursor [EntryItem (k, val)] 0))"

definition Map_delete ::
  "('p::linorder, 'h::linorder) chunkSequenceFn \<Rightarrow> ('p, 'h) Collection \<Rightarrow> ('p, 'h) Value
   \<Rightarrow> error + ('p, 'h) Collection" where
  "Map_delete chunkSequence this k =
     (case newCursorAtValue (col_sequence this) (Some k) False False of Inl e \<Rightarrow> Inl e
      | Inr cursor \<Rightarrow>
          (case cursor_at_key cursor k of Inl e \<Rightarrow> Inl e
           | Inr True \<Rightarrow> splice_with chunkSequence cursor [] 1
           | Inr False \<Rightarrow> Inr this))"

definition col_size :: "('p, 'h) Collection \<Rightarrow> int option" where
  "col_size this = seq_numLeaves (col_sequence this)"


section \<open>Set (\<^verbatim>\<open>set.js\<close>)\<close>

definition Set_has ::
  "('p::linorder, 'h::linorder) Collection \<Rightarrow> ('p, 'h) Value \<Rightarrow> error + bool" where
  "Set_has this k =
     (case newCursorAtValue (col_sequence this) (Some k) False False of Inl e \<Rightarrow> Inl e
      | Inr cursor \<Rightarrow> cursor_at_key cursor k)"

definition Set_add ::
  "('p::linorder, 'h::linorder) chunkSequenceFn \<Rightarrow> ('p, 'h) Collection \<Rightarrow> ('p, 'h) Value
   \<Rightarrow> error + ('p, 'h) Collection" where
  "Set_add chunkSequence this val =
     (case newCursorAtValue (col_sequence this) (Some val) True False of Inl e \<Rightarrow> Inl e
      | Inr cursor \<Rightarrow>
          (case cursor_at_key cursor val of Inl e \<Rightarrow> Inl e
           | Inr True \<Rightarrow> Inr this
           | Inr False \<Rightarrow> splice_with chunkSequence cursor [ValueItem val] 0))"

definition Set_delete ::
  "('p::linorder, 'h::linorder) chunkSequenceFn \<Rightarrow> ('p, 'h) Collection \<Rightarrow> ('p, 'h) Value
   \<Rightarrow> error + ('p, 'h) Collection" where
  "Set_delete chunkSequence this val =
     (case newCursorAtValue (col_sequence this) (Some val) False False of Inl e \<Rightarrow> Inl e
      | Inr cursor \<Rightarrow>
          (case cursor_at_key cursor val of Inl e \<Rightarrow> Inl e
           | Inr True \<Rightarrow> splice_with chunkSequence cursor [] 1
           | Inr False \<Rightarrow> Inr this))"


section \<open>List (\<^verbatim>\<open>list.js\<close>)\<close>

definition List_get :: "('p, 'h) Collection \<Rightarrow> int \<Rightarrow> error + ('p, 'h) Item" where
  "List_get this i =
     (if i \<ge> 0 \<and> js_less (Some i) (col_size this) then
        (case newCursorAtIndex (col_sequence this) i of Inl e \<Rightarrow> Inl e
         | Inr cursor \<Rightarrow> getCurrent cursor)
      else Inl InvariantError)"

definition List_splice ::
  "('p, 'h) chunkSequenceFn \<Rightarrow> ('p, 'h) Collection \<Rightarrow> int \<Rightarrow> int \<Rightarrow> ('p, 'h) Value list
   \<Rightarrow> error + ('p, 'h) Collection" where
  "List_splice chunkSequence this i deleteCount ins =
     (case newCursorAtIndex (col_sequence this) i of Inl e \<Rightarrow> Inl e
      | Inr cursor \<Rightarrow> splice_with chunkSequence cursor (map ValueItem ins) deleteCount)"

section \<open>Blob and its reader (\<^verbatim>\<open>blob.js\<close>)\<close>

text \<open>
  The reader holds the promise of its cursor, which is a cursor or the error the promise
  rejects with. \<^verbatim>\<open>read\<close> and \<^verbatim>\<open>seek\<close> return their result with the reader as they leave it;
  when one fails, the error is all that is returned.
\<close>

record ('p, 'h) BlobReader =
  r_sequence :: "('p, 'h) Sequence"
  r_cursor :: "error + ('p, 'h) SequenceCursor"
  r_pos :: int
  r_lock :: string

datatype read_result = ReadDone | ReadValue "8 word list"

definition getReader :: "('p, 'h) Collection \<Rightarrow> ('p, 'h) BlobReader" where
  "getReader this =
     \<lparr>r_sequence = col_sequence this, r_cursor = newCursorAtIndex (col_sequence this) 0,
      r_pos = 0, r_lock = []\<rparr>"

text \<open>\<^verbatim>\<open>Bytes.subarray(arr, idx, arr.byteLength)\<close> is \<open>drop idx arr\<close>.\<close>

definition readCur ::
  "('p, 'h) SequenceCursor \<Rightarrow> error + 8 word list \<times> ('p, 'h) SequenceCursor" where
  "readCur cur =
     (case sequence cur of
        BlobLeafSequence arr \<Rightarrow>
          (let i = indexInChunk cur in
           if i > 0 \<and> \<not> i < int (length arr) then Inl InvariantError
           else
             (case advanceChunk cur of Inl e \<Rightarrow> Inl e
              | Inr (b, cur') \<Rightarrow> Inr (if i > 0 then drop (nat i) arr else arr, cur')))
      | _ \<Rightarrow> Inl InvariantError)"

definition read ::
  "('p, 'h) BlobReader \<Rightarrow> error + read_result \<times> ('p, 'h) BlobReader" where
  "read r =
     (if r_lock r \<noteq> [] then Inl Busy
      else
        (case r_cursor r of Inl e \<Rightarrow> Inl e
         | Inr cur \<Rightarrow>
             if \<not> valid cur then Inr (ReadDone, r)
             else
               (case readCur cur of Inl e \<Rightarrow> Inl e
                | Inr (arr, cur') \<Rightarrow>
                    Inr (ReadValue arr,
                         r\<lparr>r_cursor := Inr cur', r_pos := r_pos r + int (length arr)\<rparr>))))"

definition seek ::
  "('p, 'h) BlobReader \<Rightarrow> int \<Rightarrow> int \<Rightarrow> error + int \<times> ('p, 'h) BlobReader" where
  "seek r offset whence =
     (if r_lock r \<noteq> [] then Inl Busy
      else if whence \<noteq> 0 \<and> whence \<noteq> 1 \<and> whence \<noteq> 2 then Inl InvalidWhence
      else
        (let target = (if whence = 0 then Some offset
                       else if whence = 1 then Some (r_pos r + offset)
                       else js_plus (seq_numLeaves (r_sequence r)) (Some offset))
         in case target of None \<Rightarrow> Inl InvariantError
            | Some a \<Rightarrow>
                if \<not> a \<ge> 0 then Inl InvariantError
                else
                  (case newCursorAtIndex (r_sequence r) a of Inl e \<Rightarrow> Inl e
                   | Inr cur \<Rightarrow> Inr (a, r\<lparr>r_cursor := Inr cur, r_pos := a\<rparr>))))"

section \<open>Ordered diff and \<^verbatim>\<open>Set.diff\<close>\<close>

text \<open>
  The leaf items of a tree in order, each with the key \<^verbatim>\<open>getKey\<close> gives it: what a cursor
  that starts at the first leaf item and advances to the end visits.
\<close>

fun keyed_items :: "('p, 'h) Sequence \<Rightarrow> error + (('p, 'h) OrderedKey \<times> ('p, 'h) Item) list"
and keyed_children :: "('p, 'h) MetaTuple list \<Rightarrow> error + (('p, 'h) OrderedKey \<times> ('p, 'h) Item) list"
and keyed_child :: "('p, 'h) MetaTuple \<Rightarrow> error + (('p, 'h) OrderedKey \<times> ('p, 'h) Item) list"
where
  "keyed_items (MapLeafSequence es) = Inr (map (\<lambda>e. (new_OrderedKey (fst e), EntryItem e)) es)"
| "keyed_items (SetLeafSequence xs) = Inr (map (\<lambda>x. (new_OrderedKey x, ValueItem x)) xs)"
| "keyed_items (ListLeafSequence xs) = (if xs = [] then Inr [] else Inl Unsupported)"
| "keyed_items (BlobLeafSequence bs) = (if bs = [] then Inr [] else Inl Unsupported)"
| "keyed_items EmptySequence = Inr []"
| "keyed_items (MetaSequence ts) = keyed_children ts"
| "keyed_children [] = Inr []"
| "keyed_children (t # ts) =
     (case keyed_child t of Inl e \<Rightarrow> Inl e
      | Inr xs \<Rightarrow> (case keyed_children ts of Inl e \<Rightarrow> Inl e | Inr ys \<Rightarrow> Inr (xs @ ys)))"
| "keyed_child (MetaTuple r k n c) =
     (case c of None \<Rightarrow> Inl InvariantError | Some s \<Rightarrow> keyed_items s)"

text \<open>
  Modelled from the spec: \<^verbatim>\<open>ordered-sequence-diff.js\<close> is not among the sources. "Two
  synchronized cursors walk two ordered trees in key order. At each step: if keys equal: if
  values equal, skip both; else emit \<open>modified\<close> and advance both. Else emit the smaller as
  \<open>added\<close> or \<open>removed\<close> and advance that side." The values are compared by the leaves'
  \<^verbatim>\<open>getEqualsFn\<close>, which compares the items; what is emitted is the key's value. Skipping a
  subtree whose ref is the same on both sides emits nothing and is left out. The result is
  \<open>(added, removed, modified)\<close>.
\<close>

fun diff_walk ::
  "(('p::linorder, 'h::linorder) OrderedKey \<times> ('p, 'h) Item) list
   \<Rightarrow> (('p, 'h) OrderedKey \<times> ('p, 'h) Item) list
   \<Rightarrow> error + ('p, 'h) Value list \<times> ('p, 'h) Value list \<times> ('p, 'h) Value list" where
  "diff_walk [] [] = Inr ([], [], [])"
| "diff_walk [] ((ck, ci) # cs) =
     (case key_value ck of Inl e \<Rightarrow> Inl e
      | Inr x \<Rightarrow> (case diff_walk [] cs of Inl e \<Rightarrow> Inl e
                  | Inr (ad, rm, md) \<Rightarrow> Inr (x # ad, rm, md)))"
| "diff_walk ((lk, li) # ls) [] =
     (case key_value lk of Inl e \<Rightarrow> Inl e
      | Inr x \<Rightarrow> (case diff_walk ls [] of Inl e \<Rightarrow> Inl e
                  | Inr (ad, rm, md) \<Rightarrow> Inr (ad, x # rm, md)))"
| "diff_walk ((lk, li) # ls) ((ck, ci) # cs) =
     (case key_compare ck lk of Inl e \<Rightarrow> Inl e
      | Inr r \<Rightarrow>
          if r = 0 then
            (if equals li ci then diff_walk ls cs
             else
               (case key_value ck of Inl e \<Rightarrow> Inl e
                | Inr x \<Rightarrow> (case diff_walk ls cs of Inl e \<Rightarrow> Inl e
                            | Inr (ad, rm, md) \<Rightarrow> Inr (ad, rm, x # md))))
          else if r < 0 then
            (case key_value ck of Inl e \<Rightarrow> Inl e
             | Inr x \<Rightarrow> (case diff_walk ((lk, li) # ls) cs of Inl e \<Rightarrow> Inl e
                         | Inr (ad, rm, md) \<Rightarrow> Inr (x # ad, rm, md)))
          else
            (case key_value lk of Inl e \<Rightarrow> Inl e
             | Inr x \<Rightarrow> (case diff_walk ls ((ck, ci) # cs) of Inl e \<Rightarrow> Inl e
                         | Inr (ad, rm, md) \<Rightarrow> Inr (ad, x # rm, md))))"

definition ordered_diff ::
  "('p::linorder, 'h::linorder) Sequence \<Rightarrow> ('p, 'h) Sequence
   \<Rightarrow> error + ('p, 'h) Value list \<times> ('p, 'h) Value list \<times> ('p, 'h) Value list" where
  "ordered_diff lst current =
     (case keyed_items lst of Inl e \<Rightarrow> Inl e
      | Inr ls \<Rightarrow> (case keyed_items current of Inl e \<Rightarrow> Inl e | Inr cs \<Rightarrow> diff_walk ls cs))"

text \<open>\<^verbatim>\<open>Set.diff\<close> of \<^verbatim>\<open>set.js\<close>, with its invariant on the modified component.\<close>

definition Set_diff ::
  "('p::linorder, 'h::linorder) Collection \<Rightarrow> ('p, 'h) Collection
   \<Rightarrow> error + ('p, 'h) Value list \<times> ('p, 'h) Value list" where
  "Set_diff this from =
     (case ordered_diff (col_sequence from) (col_sequence this) of Inl e \<Rightarrow> Inl e
      | Inr (added, removed, modified) \<Rightarrow>
          if length modified = 0 then Inr (added, removed) else Inl InvariantError)"

text \<open>A Set's tree: every leaf is a \<^verbatim>\<open>SetLeafSequence\<close> and every child can be read.\<close>

fun set_tree :: "('p, 'h) Sequence \<Rightarrow> bool"
and set_tuples :: "('p, 'h) MetaTuple list \<Rightarrow> bool"
and set_tuple :: "('p, 'h) MetaTuple \<Rightarrow> bool"
where
  "set_tree (SetLeafSequence xs) = True"
| "set_tree (MetaSequence ts) = set_tuples ts"
| "set_tree (ListLeafSequence xs) = False"
| "set_tree (MapLeafSequence es) = False"
| "set_tree (BlobLeafSequence bs) = False"
| "set_tree EmptySequence = False"
| "set_tuples [] = True"
| "set_tuples (t # ts) = (set_tuple t \<and> set_tuples ts)"
| "set_tuple (MetaTuple r k n c) = (case c of None \<Rightarrow> False | Some s \<Rightarrow> set_tree s)"

section \<open>The sequence chunker (\<^verbatim>\<open>sequence_chunker.go\<close>)\<close>

text \<open>
  The Go chunker works on the same data model: sequences of items, meta tuples, ordered keys
  and collections. An entry of its buffer is an item with a repeat count.
\<close>

datatype NomsKind = BlobKind | ListKind | MapKind | SetKind

datatype ('p, 'h) sequenceEntry = sequenceEntry (count: nat) (item: "('p, 'h) Item")

type_synonym ('p, 'h) makeChunkFn =
  "nat \<Rightarrow> ('p, 'h) sequenceEntry list \<Rightarrow> ('p, 'h) Collection \<times> ('p, 'h) OrderedKey \<times> nat"

text \<open>
  The struct \<^verbatim>\<open>sequenceChunker\<close>. The rolling hasher is a value of the type \<open>'rv\<close> and the
  cursor a value of the type \<open>'c\<close>: neither \<^verbatim>\<open>rollingValueHasher\<close> nor the Go
  \<^verbatim>\<open>sequenceCursor\<close> is among the sources. The value store \<^verbatim>\<open>vrw\<close> is shared by all
  levels; it is the list of the collections written so far and is passed along with the
  chunker.
\<close>

record ('p, 'h, 'rv, 'c) chunkerFields =
  kind :: NomsKind
  cur :: "'c option"
  level :: nat
  current :: "('p, 'h) sequenceEntry list"
  makeChunk :: "('p, 'h) makeChunkFn"
  parentMakeChunk :: "('p, 'h) makeChunkFn"
  isLeaf :: bool
  hashValueBytes :: "('p, 'h) Item \<Rightarrow> 'rv \<Rightarrow> 'rv"
  rv :: 'rv
  isDone :: bool
  unwrittenCol :: "('p, 'h) Collection option"

datatype ('p, 'h, 'rv, 'c) sequenceChunker =
  sequenceChunker (scFields: "('p, 'h, 'rv, 'c) chunkerFields")
                  (parentChunker: "('p, 'h, 'rv, 'c) sequenceChunker option")

type_synonym ('p, 'h, 'rv, 'c) chunking =
  "('p, 'h) Collection list \<times> ('p, 'h, 'rv, 'c) sequenceChunker"

text \<open>
  What the chunker calls and the sources do not hold: the operations of the rolling hasher,
  \<^verbatim>\<open>metaHashValueBytes\<close>, the value \<^verbatim>\<open>Number(n)\<close>, the ref of a collection, the parent of a
  cursor, and the two methods that run a cursor over an existing tree, \<^verbatim>\<open>resume\<close> and
  \<^verbatim>\<open>finalizeCursor\<close>.
\<close>

record ('p, 'h, 'rv, 'c) goEnv =
  newRollingValueHasher :: "8 word \<Rightarrow> 'rv"
  Reset :: "'rv \<Rightarrow> 'rv"
  crossedBoundary :: "'rv \<Rightarrow> bool"
  metaHashValueBytes :: "('p, 'h) Item \<Rightarrow> 'rv \<Rightarrow> 'rv"
  Number :: "nat \<Rightarrow> ('p, 'h) Item"
  NewRef :: "('p, 'h) Collection \<Rightarrow> 'h"
  cursor_parent :: "'c \<Rightarrow> 'c option"
  resume :: "('p, 'h, 'rv, 'c) chunking \<Rightarrow> error + ('p, 'h, 'rv, 'c) chunking"
  finalizeCursor :: "('p, 'h, 'rv, 'c) chunking \<Rightarrow> error + ('p, 'h, 'rv, 'c) chunking"

definition set_fields ::
  "('p, 'h, 'rv, 'c) sequenceChunker \<Rightarrow> ('p, 'h, 'rv, 'c) chunkerFields
   \<Rightarrow> ('p, 'h, 'rv, 'c) sequenceChunker" where
  "set_fields sc f = sequenceChunker f (parentChunker sc)"

definition WriteValue ::
  "('p, 'h, 'rv, 'c) goEnv \<Rightarrow> ('p, 'h) Collection list \<Rightarrow> ('p, 'h) Collection
   \<Rightarrow> 'h \<times> ('p, 'h) Collection list" where
  "WriteValue E w col = (NewRef E col, w @ [col])"

definition newSequenceChunker ::
  "('p, 'h, 'rv, 'c) goEnv \<Rightarrow> NomsKind \<Rightarrow> 'c option \<Rightarrow> nat \<Rightarrow> ('p, 'h) Collection list
   \<Rightarrow> ('p, 'h) makeChunkFn \<Rightarrow> ('p, 'h) makeChunkFn \<Rightarrow> (('p, 'h) Item \<Rightarrow> 'rv \<Rightarrow> 'rv)
   \<Rightarrow> error + ('p, 'h, 'rv, 'c) chunking" where
  "newSequenceChunker E k c lvl vrw mk pmk hvb =
     (let sc = sequenceChunker
                 \<lparr>kind = k, cur = c, level = lvl, current = [], makeChunk = mk,
                  parentMakeChunk = pmk, isLeaf = True, hashValueBytes = hvb,
                  rv = newRollingValueHasher E (of_nat (lvl mod 256)), isDone = False,
                  unwrittenCol = None\<rparr>
                 None
      in if c \<noteq> None then resume E (vrw, sc) else Inr (vrw, sc))"

definition newEmptySequenceChunker ::
  "('p, 'h, 'rv, 'c) goEnv \<Rightarrow> NomsKind \<Rightarrow> ('p, 'h) Collection list
   \<Rightarrow> ('p, 'h) makeChunkFn \<Rightarrow> ('p, 'h) makeChunkFn \<Rightarrow> (('p, 'h) Item \<Rightarrow> 'rv \<Rightarrow> 'rv)
   \<Rightarrow> error + ('p, 'h, 'rv, 'c) chunking" where
  "newEmptySequenceChunker E k vrw mk pmk hvb = newSequenceChunker E k None 0 vrw mk pmk hvb"

definition createParent ::
  "('p, 'h, 'rv, 'c) goEnv \<Rightarrow> ('p, 'h, 'rv, 'c) chunking \<Rightarrow> error + ('p, 'h, 'rv, 'c) chunking" where
  "createParent E st =
     (case st of (vrw, sc) \<Rightarrow>
        if parentChunker sc \<noteq> None then Inl Panic
        else
          (let f = scFields sc;
               pc = (case cur f of None \<Rightarrow> None | Some c \<Rightarrow> cursor_parent E c)
           in case newSequenceChunker E (kind f) pc (level f + 1) vrw (parentMakeChunk f)
                     (parentMakeChunk f) (metaHashValueBytes E)
              of Inl e \<Rightarrow> Inl e
              | Inr (vrw1, p) \<Rightarrow>
                  (let p' = set_fields p ((scFields p)\<lparr>isLeaf := False\<rparr>)
                   in case unwrittenCol f of
                        None \<Rightarrow> Inr (vrw1, sequenceChunker f (Some p'))
                      | Some col \<Rightarrow>
                          Inr (snd (WriteValue E vrw1 col),
                               sequenceChunker (f\<lparr>unwrittenCol := None\<rparr>) (Some p')))))"

text \<open>
  \<^verbatim>\<open>createSequence\<close>. The meta tuple it returns points to the chunk it made: reading the
  tuple's ref back gives that chunk, which the tuple carries as its child.
\<close>

definition createSequence ::
  "('p, 'h, 'rv, 'c) goEnv \<Rightarrow> bool \<Rightarrow> ('p, 'h, 'rv, 'c) chunking
   \<Rightarrow> (('p, 'h) Sequence \<times> ('p, 'h) MetaTuple) \<times> ('p, 'h, 'rv, 'c) chunking" where
  "createSequence E write st =
     (case st of (vrw, sc) \<Rightarrow>
        (case makeChunk (scFields sc) (level (scFields sc)) (current (scFields sc)) of
           (col, k, n) \<Rightarrow>
             (let f1 = (scFields sc)\<lparr>current := []\<rparr>;
                  (r, vrw1, f2) =
                     (if write then (fst (WriteValue E vrw col), snd (WriteValue E vrw col), f1)
                      else (NewRef E col, vrw, f1\<lparr>unwrittenCol := Some col\<rparr>))
              in ((col_sequence col, MetaTuple r k (int n) (Some (col_sequence col))),
                  (vrw1, set_fields sc f2)))))"

text \<open>
  \<^verbatim>\<open>Append\<close>, \<^verbatim>\<open>appendEntry\<close>, \<^verbatim>\<open>consumeLastEntry\<close> and \<^verbatim>\<open>handleChunkBoundary\<close> call each other,
  and a chunk boundary appends a meta tuple to the parent chunker, which may cross a boundary
  of its own and create a grandparent. Nothing bounds the number of levels this climbs when
  the hasher keeps crossing, so \<^verbatim>\<open>handleChunkBoundary\<close> takes the number of levels it may climb
  and answers \<open>None\<close> when it is used up. Each method is written once, over the
  \<^verbatim>\<open>handleChunkBoundary\<close> (or, for \<^verbatim>\<open>handleChunkBoundary\<close> itself, the parent's \<^verbatim>\<open>Append\<close>) it
  calls, and the recursion ties them together. The comparison \<^verbatim>\<open>==\<close> of two items is
  equality.
\<close>

definition consumeLastEntry_body ::
  "(('p, 'h, 'rv, 'c) chunking \<Rightarrow> (error + ('p, 'h, 'rv, 'c) chunking) option)
   \<Rightarrow> ('p, 'h, 'rv, 'c) goEnv \<Rightarrow> ('p, 'h, 'rv, 'c) chunking
   \<Rightarrow> (error + bool \<times> ('p, 'h, 'rv, 'c) chunking) option" where
  "consumeLastEntry_body handleChunkBoundary' E st =
     (case st of (vrw, sc) \<Rightarrow>
        (let f = scFields sc in
         if current f = [] then Some (Inl Panic)
         else
           (let lst = last (current f);
                rv1 = (if count lst > 1 then hashValueBytes f (Number E (count lst)) (rv f)
                       else rv f);
                rv2 = hashValueBytes f (item lst) rv1;
                sc1 = set_fields sc (f\<lparr>rv := rv2\<rparr>)
            in if crossedBoundary E rv2 then
                 (case handleChunkBoundary' (vrw, sc1) of None \<Rightarrow> None
                  | Some (Inl e) \<Rightarrow> Some (Inl e)
                  | Some (Inr st') \<Rightarrow> Some (Inr (True, st')))
               else Some (Inr (False, vrw, sc1)))))"

definition appendEntry_body ::
  "(('p, 'h, 'rv, 'c) chunking \<Rightarrow> (error + ('p, 'h, 'rv, 'c) chunking) option)
   \<Rightarrow> ('p, 'h, 'rv, 'c) goEnv \<Rightarrow> ('p, 'h, 'rv, 'c) chunking \<Rightarrow> ('p, 'h) sequenceEntry
   \<Rightarrow> (error + bool \<times> ('p, 'h, 'rv, 'c) chunking) option" where
  "appendEntry_body handleChunkBoundary' E st entry =
     (case st of (vrw, sc) \<Rightarrow>
        consumeLastEntry_body handleChunkBoundary' E
          (vrw, set_fields sc ((scFields sc)\<lparr>current := current (scFields sc) @ [entry]\<rparr>)))"

definition Append_body ::
  "(('p, 'h, 'rv, 'c) chunking \<Rightarrow> (error + ('p, 'h, 'rv, 'c) chunking) option)
   \<Rightarrow> ('p, 'h, 'rv, 'c) goEnv \<Rightarrow> ('p, 'h, 'rv, 'c) chunking \<Rightarrow> ('p, 'h) Item
   \<Rightarrow> (error + ('p, 'h, 'rv, 'c) chunking) option" where
  "Append_body handleChunkBoundary' E st it =
     (case st of (vrw, sc) \<Rightarrow>
        (let f = scFields sc in
         if kind f \<noteq> ListKind then
           (case appendEntry_body handleChunkBoundary' E (vrw, sc) (sequenceEntry 1 it) of
              None \<Rightarrow> None
            | Some (Inl e) \<Rightarrow> Some (Inl e)
            | Some (Inr (b, st')) \<Rightarrow> Some (Inr st'))
         else if length (current f) = 0 then
           Some (Inr (vrw, set_fields sc (f\<lparr>current := current f @ [sequenceEntry 1 it]\<rparr>)))
         else if item (last (current f)) = it then
           Some (Inr (vrw, set_fields sc
             (f\<lparr>current := butlast (current f)
                    @ [sequenceEntry (count (last (current f)) + 1)
                                     (item (last (current f)))]\<rparr>)))
         else
           (case consumeLastEntry_body handleChunkBoundary' E (vrw, sc) of None \<Rightarrow> None
            | Some (Inl e) \<Rightarrow> Some (Inl e)
            | Some (Inr (b, vrw1, sc1)) \<Rightarrow>
                Some (Inr (vrw1, set_fields sc1
                  ((scFields sc1)\<lparr>current := current (scFields sc1)
                                                  @ [sequenceEntry 1 it]\<rparr>))))))"

definition handleChunkBoundary_body ::
  "(('p, 'h, 'rv, 'c) chunking \<Rightarrow> ('p, 'h) Item \<Rightarrow> (error + ('p, 'h, 'rv, 'c) chunking) option)
   \<Rightarrow> ('p, 'h, 'rv, 'c) goEnv \<Rightarrow> ('p, 'h, 'rv, 'c) chunking
   \<Rightarrow> (error + ('p, 'h, 'rv, 'c) chunking) option" where
  "handleChunkBoundary_body parentAppend E st =
     (case st of (vrw, sc) \<Rightarrow>
        if \<not> length (current (scFields sc)) > 0 then Some (Inl Panic)
        else
          (let sc1 = set_fields sc ((scFields sc)\<lparr>rv := Reset E (rv (scFields sc))\<rparr>)
           in case (if parentChunker sc1 = None then createParent E (vrw, sc1)
                    else Inr (vrw, sc1))
              of Inl e \<Rightarrow> Some (Inl e)
              | Inr st2 \<Rightarrow>
                  (case createSequence E True st2 of
                     ((s, mt), (vrw3, sc3)) \<Rightarrow>
                       (case parentChunker sc3 of None \<Rightarrow> Some (Inl Panic)
                        | Some p \<Rightarrow>
                            (case parentAppend (vrw3, p) (TupleItem mt) of None \<Rightarrow> None
                             | Some (Inl e) \<Rightarrow> Some (Inl e)
                             | Some (Inr (vrw4, p')) \<Rightarrow>
                                 Some (Inr (vrw4, sequenceChunker (scFields sc3) (Some p'))))))))"

primrec handleChunkBoundary ::
  "nat \<Rightarrow> ('p, 'h, 'rv, 'c) goEnv \<Rightarrow> ('p, 'h, 'rv, 'c) chunking
   \<Rightarrow> (error + ('p, 'h, 'rv, 'c) chunking) option" where
  "handleChunkBoundary 0 E st = None"
| "handleChunkBoundary (Suc n) E st =
     handleChunkBoundary_body (Append_body (handleChunkBoundary n E) E) E st"

definition consumeLastEntry ::
  "nat \<Rightarrow> ('p, 'h, 'rv, 'c) goEnv \<Rightarrow> ('p, 'h, 'rv, 'c) chunking
   \<Rightarrow> (error + bool \<times> ('p, 'h, 'rv, 'c) chunking) option" where
  "consumeLastEntry n E st = consumeLastEntry_body (handleChunkBoundary n E) E st"

definition appendEntry ::
  "nat \<Rightarrow> ('p, 'h, 'rv, 'c) goEnv \<Rightarrow> ('p, 'h, 'rv, 'c) chunking \<Rightarrow> ('p, 'h) sequenceEntry
   \<Rightarrow> (error + bool \<times> ('p, 'h, 'rv, 'c) chunking) option" where
  "appendEntry n E st entry = appendEntry_body (handleChunkBoundary n E) E st entry"

definition Append ::
  "nat \<Rightarrow> ('p, 'h, 'rv, 'c) goEnv \<Rightarrow> ('p, 'h, 'rv, 'c) chunking \<Rightarrow> ('p, 'h) Item
   \<Rightarrow> (error + ('p, 'h, 'rv, 'c) chunking) option" where
  "Append n E st it = Append_body (handleChunkBoundary n E) E st it"

fun anyPending :: "('p, 'h, 'rv, 'c) sequenceChunker \<Rightarrow> bool" where
  "anyPending (sequenceChunker f p) =
     (if length (current f) > 0 then True
      else (case p of None \<Rightarrow> False | Some q \<Rightarrow> anyPending q))"

text \<open>
  The loop at the end of \<^verbatim>\<open>Done\<close>: it reads the child of the meta tuple and returns it when
  it is not a meta sequence or holds more than one tuple, and goes on from the child's first
  tuple otherwise.
\<close>

lemma size_first_tuple_less:
  assumes "mt_getChildSequence mt = Inr c" and "array_get (items c) 0 = Some (TupleItem mt')"
  shows "size mt' < size mt"
proof -
  from assms(1) have c: "child mt = Some c"
    by (auto simp: mt_getChildSequence_def split: option.splits)
  from assms(2) obtain ts where ts: "c = MetaSequence ts" "mt' \<in> set ts"
    by (cases c) (auto simp: array_get_def split: if_splits)
  then have "size mt' \<le> size_list size ts"
    by (simp add: size_list_estimation')
  then have "size mt' < size c" using ts by simp
  moreover have "size c < size mt" using c by (cases mt) simp
  ultimately show ?thesis by simp
qed

function canonicalRoot :: "('p, 'h) MetaTuple \<Rightarrow> error + ('p, 'h) Sequence" where
  "canonicalRoot mt =
     (case mt_getChildSequence mt of Inl e \<Rightarrow> Inl e
      | Inr c \<Rightarrow>
          if \<not> isMeta c \<or> seq_length c > 1 then Inr c
          else
            (case array_get (items c) 0 of
               Some (TupleItem mt') \<Rightarrow> canonicalRoot mt'
             | _ \<Rightarrow> Inl Panic))"
  by pat_completeness auto
termination
  by (relation "measure size") (auto simp: size_first_tuple_less)

declare canonicalRoot.simps [simp del]

definition Done_body ::
  "(('p, 'h, 'rv, 'c) chunking \<Rightarrow> (error + ('p, 'h, 'rv, 'c) chunking) option)
   \<Rightarrow> (('p, 'h, 'rv, 'c) chunking \<Rightarrow> (error + ('p, 'h) Sequence \<times> ('p, 'h) Collection list) option)
   \<Rightarrow> ('p, 'h, 'rv, 'c) goEnv \<Rightarrow> ('p, 'h, 'rv, 'c) chunking
   \<Rightarrow> (error + ('p, 'h) Sequence \<times> ('p, 'h) Collection list) option" where
  "Done_body handleChunkBoundary' parentDone E st =
     (case st of (vrw, sc) \<Rightarrow>
        if isDone (scFields sc) then Some (Inl Panic)
        else
          (let sc1 = set_fields sc ((scFields sc)\<lparr>isDone := True\<rparr>)
           in case (if cur (scFields sc1) \<noteq> None then finalizeCursor E (vrw, sc1)
                    else Inr (vrw, sc1))
              of Inl e \<Rightarrow> Some (Inl e)
              | Inr (vrw2, sc2) \<Rightarrow>
                  if (case parentChunker sc2 of None \<Rightarrow> False | Some p \<Rightarrow> anyPending p) then
                    (case (if length (current (scFields sc2)) > 0
                           then handleChunkBoundary' (vrw2, sc2)
                           else Some (Inr (vrw2, sc2)))
                     of None \<Rightarrow> None
                     | Some (Inl e) \<Rightarrow> Some (Inl e)
                     | Some (Inr (vrw3, sc3)) \<Rightarrow>
                         (case parentChunker sc3 of None \<Rightarrow> Some (Inl Panic)
                          | Some p \<Rightarrow> parentDone (vrw3, p)))
                  else if isLeaf (scFields sc2) \<or> length (current (scFields sc2)) > 1 then
                    (case createSequence E False (vrw2, sc2) of
                       ((s, mt), (vrw3, sc3)) \<Rightarrow> Some (Inr (s, vrw3)))
                  else if \<not> (\<not> isLeaf (scFields sc2) \<and> length (current (scFields sc2)) = 1)
                  then Some (Inl Panic)
                  else
                    (case item (hd (current (scFields sc2))) of
                       TupleItem mt \<Rightarrow>
                         (case canonicalRoot mt of Inl e \<Rightarrow> Some (Inl e)
                          | Inr s \<Rightarrow> Some (Inr (s, vrw2)))
                     | _ \<Rightarrow> Some (Inl Panic))))"

text \<open>
  \<^verbatim>\<open>Done\<close> hands over to the parent's \<^verbatim>\<open>Done\<close> while a parent has pending entries; the
  number of levels it may climb is its first argument.
\<close>

primrec Done ::
  "nat \<Rightarrow> ('p, 'h, 'rv, 'c) goEnv \<Rightarrow> ('p, 'h, 'rv, 'c) chunking
   \<Rightarrow> (error + ('p, 'h) Sequence \<times> ('p, 'h) Collection list) option" where
  "Done 0 E st = None"
| "Done (Suc n) E st = Done_body (handleChunkBoundary (Suc n) E) (Done n E) E st"

section \<open>Nodes whose keys are in order\<close>

text \<open>
  A key is usable when it holds what its kind compares by: a value when it is ordered by
  value, a hash otherwise. Keys built by the constructor or by \<^verbatim>\<open>fromHash\<close> are. The keys of
  a node are what \<^verbatim>\<open>getKey\<close> returns along its items; list and blob leaves have none.
  \<open>at_least a k\<close> is the test \<^verbatim>\<open>a.compare(k) >= 0\<close> and \<open>key_le a b\<close> the test
  \<^verbatim>\<open>a.compare(b) <= 0\<close>.
\<close>

definition key_ok :: "('p, 'h) OrderedKey \<Rightarrow> bool" where
  "key_ok k = (if isOrderedByValue k then v k \<noteq> None else h k \<noteq> None)"

definition at_least ::
  "('p::linorder, 'h::linorder) OrderedKey \<Rightarrow> ('p, 'h) OrderedKey \<Rightarrow> bool" where
  "at_least a k = (case key_compare a k of Inl e \<Rightarrow> False | Inr r \<Rightarrow> r \<ge> 0)"

definition key_le ::
  "('p::linorder, 'h::linorder) OrderedKey \<Rightarrow> ('p, 'h) OrderedKey \<Rightarrow> bool" where
  "key_le a b = (case key_compare a b of Inl e \<Rightarrow> False | Inr r \<Rightarrow> r \<le> 0)"

fun node_keys :: "('p, 'h) Sequence \<Rightarrow> ('p, 'h) OrderedKey list option" where
  "node_keys (MapLeafSequence es) = Some (map (\<lambda>e. new_OrderedKey (fst e)) es)"
| "node_keys (SetLeafSequence xs) = Some (map new_OrderedKey xs)"
| "node_keys (MetaSequence ts) = Some (map key ts)"
| "node_keys (ListLeafSequence xs) = (if xs = [] then Some [] else None)"
| "node_keys (BlobLeafSequence bs) = (if bs = [] then Some [] else None)"
| "node_keys EmptySequence = Some []"

definition ordered_keys :: "('p::linorder, 'h::linorder) OrderedKey list \<Rightarrow> bool" where
  "ordered_keys ks = (list_all key_ok ks \<and> sorted_wrt key_le ks)"

section \<open>Cursor sentinels\<close>

text \<open>
  C6. A cursor at the past-end sentinel \<open>idx = length\<close> of a non-empty chunk is not valid, and
  \<^verbatim>\<open>retreat\<close> returns true and lands it on the last valid index \<open>length - 1\<close>; on a list of
  five items that is index 4.
\<close>

theorem retreat_from_past_end:
  assumes "idx c = cursor_length c" and "cursor_length c > 0"
  shows "\<not> valid c \<and> retreat c = Inr (True, set_idx c (cursor_length c - 1))
         \<and> valid (set_idx c (cursor_length c - 1))"
  using assms by (cases c) (auto simp: valid_def retreat_def set_idx_def cursor_length_def)

theorem retreat_from_past_end_witness:
  "\<not> valid (SequenceCursor None
        (ListLeafSequence [Prim 10, Prim 11, Prim 12, Prim 13, Prim (14::int)]
           :: (int, nat) Sequence) 5)
   \<and> retreat (SequenceCursor None
        (ListLeafSequence [Prim 10, Prim 11, Prim 12, Prim 13, Prim (14::int)]
           :: (int, nat) Sequence) 5)
     = Inr (True, SequenceCursor None
                    (ListLeafSequence [Prim 10, Prim 11, Prim 12, Prim 13, Prim 14]) 4)"
  using retreat_from_past_end
    [of "SequenceCursor None
           (ListLeafSequence [Prim 10, Prim 11, Prim 12, Prim 13, Prim (14::int)]
              :: (int, nat) Sequence) 5"]
  by (simp add: cursor_length_def seq_length_def set_idx_def)

text \<open>
  C5, as the code has it. At the past-end sentinel \<open>idx = length\<close>, \<^verbatim>\<open>advance\<close> returns false
  and leaves the cursor as it is; at the before-start sentinel \<open>idx = -1\<close>, \<^verbatim>\<open>retreat\<close> returns
  false and leaves the cursor as it is, whatever the flag and the parent. The other two
  combinations move the cursor: from \<open>idx = -1\<close> on a non-empty chunk \<^verbatim>\<open>advance\<close> returns true
  and lands on index 0, and from \<open>idx = length\<close> on a non-empty chunk \<^verbatim>\<open>retreat\<close> returns true
  and lands on index \<open>length - 1\<close>.
\<close>

theorem sentinel_advance_retreat:
  "(idx c = cursor_length c \<longrightarrow>
      advanceMaybeAllowPastEnd b c = Inr (False, c) \<and> advance c = Inr (False, c))
   \<and> (idx c = - 1 \<longrightarrow>
      retreatMaybeAllowBeforeStart b c = Inr (False, c) \<and> retreat c = Inr (False, c))
   \<and> (idx c = - 1 \<and> cursor_length c > 0 \<longrightarrow> advance c = Inr (True, set_idx c 0))
   \<and> (idx c = cursor_length c \<and> cursor_length c > 0 \<longrightarrow>
      retreat c = Inr (True, set_idx c (cursor_length c - 1)))"
  by (cases c)
     (auto simp: cursor_length_def advance_def retreat_def advanceLocal_def set_idx_def)

theorem sentinel_advance_retreat_witness:
  "advance (SequenceCursor None (ListLeafSequence [Prim (100::int), Prim 101]
              :: (int, nat) Sequence) 2)
     = Inr (False, SequenceCursor None (ListLeafSequence [Prim 100, Prim 101]) 2)
   \<and> retreat (SequenceCursor None (ListLeafSequence [Prim (100::int), Prim 101]
              :: (int, nat) Sequence) (- 1))
     = Inr (False, SequenceCursor None (ListLeafSequence [Prim 100, Prim 101]) (- 1))
   \<and> advance (SequenceCursor None (ListLeafSequence [Prim (100::int), Prim 101]
              :: (int, nat) Sequence) (- 1))
     = Inr (True, SequenceCursor None (ListLeafSequence [Prim 100, Prim 101]) 0)
   \<and> retreat (SequenceCursor None (ListLeafSequence [Prim (100::int), Prim 101]
              :: (int, nat) Sequence) 2)
     = Inr (True, SequenceCursor None (ListLeafSequence [Prim 100, Prim 101]) 1)"
  using sentinel_advance_retreat
    [of "SequenceCursor None (ListLeafSequence [Prim (100::int), Prim 101]
           :: (int, nat) Sequence) 2" True]
    sentinel_advance_retreat
    [of "SequenceCursor None (ListLeafSequence [Prim (100::int), Prim 101]
           :: (int, nat) Sequence) (- 1)" True]
  by (simp add: cursor_length_def seq_length_def set_idx_def)

text \<open>
  The claim as stated fails: the test "retreating past the start, then advancing past the
  end" of \<^verbatim>\<open>sequence-test.js\<close> has a cursor at \<open>idx = -1\<close> over the chunk \<open>[100, 101]\<close>, and
  \<^verbatim>\<open>advance\<close> returns true and moves it to index 0; at \<open>idx = length = 2\<close>, \<^verbatim>\<open>retreat\<close> returns
  true and moves it to index 1.
\<close>

theorem sentinel_counterexample:
  "advance (SequenceCursor None (ListLeafSequence [Prim (100::int), Prim 101]
              :: (int, nat) Sequence) (- 1))
     = Inr (True, SequenceCursor None (ListLeafSequence [Prim 100, Prim 101]) 0)
   \<and> retreat (SequenceCursor None (ListLeafSequence [Prim (100::int), Prim 101]
              :: (int, nat) Sequence) 2)
     = Inr (True, SequenceCursor None (ListLeafSequence [Prim 100, Prim 101]) 1)"
  by (simp add: advance_def retreat_def advanceLocal_def set_idx_def cursor_length_def
                seq_length_def)

section \<open>Order of values and keys\<close>

lemma compare_le_iff: "(compare a b \<le> 0) = (a \<le> b)"
  by (simp add: less_eq_Value_def)

lemma compare_ge_iff: "(compare a b \<ge> 0) = (b \<le> a)"
  by (cases a; cases b) (auto simp: less_eq_Value_def)

lemma key_compare_ok:
  "key_ok a \<Longrightarrow> key_ok b \<Longrightarrow> \<exists>r. key_compare a b = Inr r"
  by (cases a; cases b) (auto simp: key_ok_def key_compare_def notNull_def split: if_splits)

lemma key_compare_cases:
  "key_compare (OrderedKey True (Some x) ha) (OrderedKey True (Some y) hb) = Inr (compare x y)"
  "key_compare (OrderedKey True va ha) (OrderedKey False vb hb) = Inr (- 1)"
  "key_compare (OrderedKey False va ha) (OrderedKey True vb hb) = Inr 1"
  "key_compare (OrderedKey False va (Some p)) (OrderedKey False vb (Some q)) = Inr (Hash_compare p q)"
  by (simp_all add: key_compare_def notNull_def)

lemma Hash_compare_le_iff: "(Hash_compare x y \<le> 0) = (x \<le> y)"
  by (auto simp: Hash_compare_def)

lemma Hash_compare_ge_iff: "(Hash_compare x y \<ge> 0) = (y \<le> x)"
  by (auto simp: Hash_compare_def)

lemma at_least_mono:
  assumes "key_ok a" "key_ok b" "key_ok k" "key_le a b" "at_least a k"
  shows "at_least b k"
proof -
  obtain ta va ha where a: "a = OrderedKey ta va ha" by (cases a)
  obtain tb vb hb where b: "b = OrderedKey tb vb hb" by (cases b)
  obtain tk vk hk where kk: "k = OrderedKey tk vk hk" by (cases k)
  show ?thesis
  proof (cases ta; cases tb; cases tk)
    assume t: "ta" "tb" "tk"
    with assms a b kk obtain x y z where "va = Some x" "vb = Some y" "vk = Some z"
      by (auto simp: key_ok_def)
    with t assms(4,5) a b kk show ?thesis
      by (auto simp add: key_le_def at_least_def key_compare_cases compare_le_iff compare_ge_iff)
  next
    assume t: "\<not> ta" "\<not> tb" "\<not> tk"
    with assms a b kk obtain x y z where "ha = Some x" "hb = Some y" "hk = Some z"
      by (auto simp: key_ok_def)
    with t assms(4,5) a b kk show ?thesis
      by (auto simp add: key_le_def at_least_def key_compare_cases Hash_compare_le_iff
            Hash_compare_ge_iff)
  qed (use assms a b kk in \<open>simp_all add: key_le_def at_least_def key_compare_cases\<close>)
qed

section \<open>Binary search finds the smallest index\<close>

lemma search_loop_step:
  "lo < hi \<Longrightarrow> f (lo + (hi - lo) div 2) = Inr b \<Longrightarrow>
   search_loop f lo hi =
     (if b then search_loop f lo (lo + (hi - lo) div 2)
      else search_loop f (lo + (hi - lo) div 2 + 1) hi)"
  by (subst search_loop.simps) (simp add: Let_def)

lemma search_loop_stop: "\<not> lo < hi \<Longrightarrow> search_loop f lo hi = Inr lo"
  by (subst search_loop.simps) simp

lemma search_loop_spec:
  assumes "lo \<le> hi"
    and "\<And>i. lo \<le> i \<Longrightarrow> i < hi \<Longrightarrow> f i = Inr (P i)"
    and "\<And>i j. lo \<le> i \<Longrightarrow> i \<le> j \<Longrightarrow> j < hi \<Longrightarrow> P i \<Longrightarrow> P j"
  shows "\<exists>r. search_loop f lo hi = Inr r \<and> lo \<le> r \<and> r \<le> hi
           \<and> (\<forall>i. lo \<le> i \<and> i < r \<longrightarrow> \<not> P i) \<and> (\<forall>i. r \<le> i \<and> i < hi \<longrightarrow> P i)"
  using assms
proof (induction "nat (hi - lo)" arbitrary: lo hi rule: less_induct)
  case less
  show ?case
  proof (cases "lo < hi")
    case False
    then have "search_loop f lo hi = Inr lo" by (rule search_loop_stop)
    moreover have "lo = hi" using False less.prems(1) by simp
    ultimately show ?thesis by auto
  next
    case True
    define m where "m = lo + (hi - lo) div 2"
    have m: "lo \<le> m" "m < hi" using True by (auto simp: m_def)
    have fm: "f m = Inr (P m)" using less.prems(2) [of m] m by simp
    have step: "search_loop f lo hi = (if P m then search_loop f lo m else search_loop f (m + 1) hi)"
      using search_loop_step [OF True, of f "P m"] fm by (simp add: m_def)
    show ?thesis
    proof (cases "P m")
      case True
      have "\<exists>r. search_loop f lo m = Inr r \<and> lo \<le> r \<and> r \<le> m
           \<and> (\<forall>i. lo \<le> i \<and> i < r \<longrightarrow> \<not> P i) \<and> (\<forall>i. r \<le> i \<and> i < m \<longrightarrow> P i)"
      proof (rule less.hyps)
        show "nat (m - lo) < nat (hi - lo)" using m by simp
        show "lo \<le> m" using m by simp
        show "\<And>i. lo \<le> i \<Longrightarrow> i < m \<Longrightarrow> f i = Inr (P i)"
        proof -
          fix i assume "lo \<le> i" "i < m"
          then show "f i = Inr (P i)" using less.prems(2) [of i] m by simp
        qed
        show "\<And>i j. lo \<le> i \<Longrightarrow> i \<le> j \<Longrightarrow> j < m \<Longrightarrow> P i \<Longrightarrow> P j"
        proof -
          fix i j assume "lo \<le> i" "i \<le> j" "j < m" "P i"
          then show "P j" using less.prems(3) [of i j] m by simp
        qed
      qed
      then obtain r where r: "search_loop f lo m = Inr r" "lo \<le> r" "r \<le> m"
         "\<forall>i. lo \<le> i \<and> i < r \<longrightarrow> \<not> P i" "\<forall>i. r \<le> i \<and> i < m \<longrightarrow> P i" by blast
      have "search_loop f lo hi = Inr r" using step True r(1) by simp
      moreover have "\<forall>i. r \<le> i \<and> i < hi \<longrightarrow> P i"
      proof (intro allI impI)
        fix i assume i: "r \<le> i \<and> i < hi"
        show "P i"
        proof (cases "i < m")
          case True then show ?thesis using r(5) i by simp
        next
          case False
          then show ?thesis using less.prems(3) [of m i] m \<open>P m\<close> i by simp
        qed
      qed
      ultimately show ?thesis using r m by auto
    next
      case False
      have "\<exists>r. search_loop f (m + 1) hi = Inr r \<and> m + 1 \<le> r \<and> r \<le> hi
           \<and> (\<forall>i. m + 1 \<le> i \<and> i < r \<longrightarrow> \<not> P i) \<and> (\<forall>i. r \<le> i \<and> i < hi \<longrightarrow> P i)"
      proof (rule less.hyps)
        show "nat (hi - (m + 1)) < nat (hi - lo)" using m by simp
        show "m + 1 \<le> hi" using m by simp
        show "\<And>i. m + 1 \<le> i \<Longrightarrow> i < hi \<Longrightarrow> f i = Inr (P i)"
        proof -
          fix i assume "m + 1 \<le> i" "i < hi"
          then show "f i = Inr (P i)" using less.prems(2) [of i] m by simp
        qed
        show "\<And>i j. m + 1 \<le> i \<Longrightarrow> i \<le> j \<Longrightarrow> j < hi \<Longrightarrow> P i \<Longrightarrow> P j"
        proof -
          fix i j assume "m + 1 \<le> i" "i \<le> j" "j < hi" "P i"
          then show "P j" using less.prems(3) [of i j] m by simp
        qed
      qed
      then obtain r where r: "search_loop f (m + 1) hi = Inr r" "m + 1 \<le> r" "r \<le> hi"
         "\<forall>i. m + 1 \<le> i \<and> i < r \<longrightarrow> \<not> P i" "\<forall>i. r \<le> i \<and> i < hi \<longrightarrow> P i" by blast
      have "search_loop f lo hi = Inr r" using step False r(1) by simp
      moreover have "\<forall>i. lo \<le> i \<and> i < r \<longrightarrow> \<not> P i"
      proof (intro allI impI)
        fix i assume i: "lo \<le> i \<and> i < r"
        show "\<not> P i"
        proof (cases "i \<le> m")
          case True
          then show ?thesis using less.prems(3) [of i m] m \<open>\<not> P m\<close> i by auto
        next
          case False then show ?thesis using r(4) i by simp
        qed
      qed
      ultimately show ?thesis using r m by auto
    qed
  qed
qed

lemma node_keys_getKey:
  assumes "node_keys s = Some ks" "0 \<le> i" "i < seq_length s"
  shows "getKey s i = Inr (ks ! nat i)"
  using assms
  by (cases s) (auto simp: seq_length_def array_get_def split: if_splits)

lemma node_keys_length: "node_keys s = Some ks \<Longrightarrow> int (length ks) = seq_length s"
  by (cases s) (auto simp: seq_length_def split: if_splits)

section \<open>Seeking a key in a node\<close>

lemma seekTo_spec:
  assumes nk: "node_keys (sequence c) = Some ks" and ok: "ordered_keys ks" and k: "key_ok k"
  shows "\<exists>j. 0 \<le> j \<and> j \<le> cursor_length c
           \<and> (\<forall>i. i < nat j \<longrightarrow> \<not> at_least (ks ! i) k)
           \<and> (j < cursor_length c \<longrightarrow> at_least (ks ! nat j) k)
           \<and> seekTo k lst c =
               (if j = cursor_length c \<and> lst then
                  (if cursor_length c > 0 then Inr (True, set_idx c (cursor_length c - 1))
                   else Inl InvariantError)
                else Inr (j < cursor_length c, set_idx c j))"
proof -
  let ?n = "cursor_length c"
  let ?f = "\<lambda>i. case getKey (sequence c) i of Inl e \<Rightarrow> Inl e
                   | Inr ki \<Rightarrow> (case key_compare ki k of Inl e \<Rightarrow> Inl e
                                | Inr r \<Rightarrow> Inr (r \<ge> 0))"
  let ?P = "\<lambda>i. at_least (ks ! nat i) k"
  have len: "int (length ks) = ?n"
    using node_keys_length [OF nk] by (simp add: cursor_length_def)
  have oks: "\<And>i. i < length ks \<Longrightarrow> key_ok (ks ! i)"
    using ok by (simp add: ordered_keys_def list_all_length)
  have f: "\<And>i. 0 \<le> i \<Longrightarrow> i < ?n \<Longrightarrow> ?f i = Inr (?P i)"
  proof -
    fix i assume i: "0 \<le> i" "i < ?n"
    then have g: "getKey (sequence c) i = Inr (ks ! nat i)"
      using node_keys_getKey [OF nk] by (simp add: cursor_length_def)
    have "key_ok (ks ! nat i)" using oks i len by simp
    then obtain r where "key_compare (ks ! nat i) k = Inr r"
      using key_compare_ok k by blast
    then show "?f i = Inr (?P i)" using g by (simp add: at_least_def)
  qed
  have mono: "\<And>i j. 0 \<le> i \<Longrightarrow> i \<le> j \<Longrightarrow> j < ?n \<Longrightarrow> ?P i \<Longrightarrow> ?P j"
  proof -
    fix i j assume ij: "0 \<le> i" "i \<le> j" "j < ?n" "?P i"
    show "?P j"
    proof (cases "i = j")
      case True then show ?thesis using ij by simp
    next
      case False
      then have "nat i < nat j" "nat j < length ks" using ij len by auto
      then have "key_le (ks ! nat i) (ks ! nat j)"
        using ok by (simp add: ordered_keys_def sorted_wrt_iff_nth_less)
      then show ?thesis
        using at_least_mono [of "ks ! nat i" "ks ! nat j" k] oks k ij len
        by simp
    qed
  qed
  have n0: "0 \<le> ?n" by (simp add: cursor_length_def seq_length_def)
  have "\<exists>r. search_loop ?f 0 ?n = Inr r \<and> 0 \<le> r \<and> r \<le> ?n
           \<and> (\<forall>i. 0 \<le> i \<and> i < r \<longrightarrow> \<not> ?P i) \<and> (\<forall>i. r \<le> i \<and> i < ?n \<longrightarrow> ?P i)"
  proof (rule search_loop_spec)
    show "0 \<le> ?n" by (rule n0)
    show "\<And>i. 0 \<le> i \<Longrightarrow> i < ?n \<Longrightarrow> ?f i = Inr (?P i)" by (rule f)
    show "\<And>i j. 0 \<le> i \<Longrightarrow> i \<le> j \<Longrightarrow> j < ?n \<Longrightarrow> ?P i \<Longrightarrow> ?P j" by (rule mono)
  qed
  then obtain r where r: "search_loop ?f 0 ?n = Inr r" "0 \<le> r" "r \<le> ?n"
     "\<forall>i. 0 \<le> i \<and> i < r \<longrightarrow> \<not> ?P i" "\<forall>i. r \<le> i \<and> i < ?n \<longrightarrow> ?P i"
    by blast
  have "\<forall>i. i < nat r \<longrightarrow> \<not> at_least (ks ! i) k"
  proof (intro allI impI)
    fix i assume "i < nat r"
    then have "0 \<le> int i \<and> int i < r" by simp
    then have "\<not> ?P (int i)" using r(4) by blast
    then show "\<not> at_least (ks ! i) k" by simp
  qed
  moreover have "r < ?n \<longrightarrow> at_least (ks ! nat r) k" using r(5) by simp
  moreover have "seekTo k lst c =
               (if r = cursor_length c \<and> lst then
                  (if cursor_length c > 0 then Inr (True, set_idx c (cursor_length c - 1))
                   else Inl InvariantError)
                else Inr (r < cursor_length c, set_idx c r))"
    using r(1,2,3) by (auto simp: seekTo_def search_def)
  ultimately show ?thesis using r(2,3) by blast
qed


text \<open>
  C7, as the code has it. On a node whose keys are in order, \<^verbatim>\<open>seekTo(key, lastIfMissing)\<close>
  finds the smallest \<open>j\<close> with \<^verbatim>\<open>getKey(j).compare(key) >= 0\<close>, or \<open>j = length\<close> when there is
  none. When there is none and \<^verbatim>\<open>lastIfMissing\<close> is set, a non-empty node gets \<open>idx = length - 1\<close>
  and the answer true, and an empty node fails the invariant \<^verbatim>\<open>idx > 0\<close>; otherwise \<open>idx = j\<close>
  and the answer is \<open>idx < length\<close>.
\<close>

theorem seekTo_smallest:
  assumes nk: "node_keys (sequence c) = Some ks" and ok: "ordered_keys ks" and k: "key_ok k"
  shows "\<exists>j. 0 \<le> j \<and> j \<le> cursor_length c
           \<and> (\<forall>i. i < nat j \<longrightarrow> \<not> at_least (ks ! i) k)
           \<and> (j < cursor_length c \<longrightarrow> at_least (ks ! nat j) k)
           \<and> seekTo k lst c =
               (if j = cursor_length c \<and> lst then
                  (if cursor_length c > 0 then Inr (True, set_idx c (cursor_length c - 1))
                   else Inl InvariantError)
                else Inr (j < cursor_length c, set_idx c j))"
  using nk ok k by (rule seekTo_spec)

theorem seekTo_smallest_witness:
  "seekTo (new_OrderedKey (Prim 3)) False
      (SequenceCursor None
         (SetLeafSequence [Prim (1::int), Prim 3, Prim 5] :: (int, nat) Sequence) 0)
   = Inr (True, SequenceCursor None (SetLeafSequence [Prim 1, Prim 3, Prim 5]) 1)"
proof -
  let ?c = "SequenceCursor None
              (SetLeafSequence [Prim (1::int), Prim 3, Prim 5] :: (int, nat) Sequence) 0"
  let ?ks = "map new_OrderedKey [Prim (1::int), Prim 3, Prim 5 :: (int, nat) Value]"
  let ?k = "new_OrderedKey (Prim (3::int)) :: (int, nat) OrderedKey"
  have nk: "node_keys (sequence ?c) = Some ?ks" by simp
  have ok: "ordered_keys ?ks"
    by (simp add: ordered_keys_def key_ok_def key_le_def key_compare_def notNull_def)
  have k: "key_ok ?k" by (simp add: key_ok_def)
  have n: "cursor_length ?c = 3" by (simp add: cursor_length_def seq_length_def)
  obtain j where j: "0 \<le> j" "j \<le> 3" "\<forall>i. i < nat j \<longrightarrow> \<not> at_least (?ks ! i) ?k"
      "j < 3 \<longrightarrow> at_least (?ks ! nat j) ?k"
      "seekTo ?k False ?c = Inr (j < 3, set_idx ?c j)"
    using seekTo_smallest [OF nk ok k, of False] unfolding n by auto
  have a0: "\<not> at_least (?ks ! 0) ?k" and a1: "at_least (?ks ! 1) ?k"
    by (simp_all add: at_least_def key_compare_def notNull_def)
  have "\<not> 1 < nat j" using j(3) a1 by blast
  moreover have "j \<noteq> 0" using j(4) a0 by auto
  ultimately have "j = 1" using j(1) by linarith
  then show ?thesis using j(5) by (simp add: set_idx_def)
qed

text \<open>
  The claim as stated fails on an empty node: with \<^verbatim>\<open>lastIfMissing\<close> set, \<^verbatim>\<open>seekTo\<close> does not
  return false, it fails its invariant.
\<close>

theorem seekTo_empty_counterexample:
  "seekTo (new_OrderedKey (Prim (3::int)) :: (int, nat) OrderedKey) True
      (SequenceCursor None (MetaSequence []) 0) = Inl InvariantError"
  by (simp add: seekTo_def search_def search_loop.simps cursor_length_def seq_length_def)

section \<open>Sorting and removing duplicates\<close>

lemma compare_eq_iff: "(compare a b = 0) = (a = b)"
  by (cases a; cases b) auto




















section \<open>The diff of two Sets\<close>

text \<open>An item of a Set's leaf, with its key: the key is the key of the value.\<close>

fun set_item :: "('p, 'h) OrderedKey \<times> ('p, 'h) Item \<Rightarrow> bool" where
  "set_item (k, ValueItem a) = (k = new_OrderedKey a)"
| "set_item (k, _) = False"

lemma keyed_items_set_tree:
  "set_tree (s :: ('p, 'h) Sequence) \<Longrightarrow> \<exists>xs. keyed_items s = Inr xs \<and> list_all set_item xs"
  "set_tuples (ts :: ('p, 'h) MetaTuple list) \<Longrightarrow> \<exists>xs. keyed_children ts = Inr xs \<and> list_all set_item xs"
  "set_tuple (t :: ('p, 'h) MetaTuple) \<Longrightarrow> \<exists>xs. keyed_child t = Inr xs \<and> list_all set_item xs"
proof (induction s and ts and t rule: keyed_items_keyed_children_keyed_child.induct)
  case (2 xs)
  then show ?case by (simp add: list_all_iff)
next
  case (8 t ts)
  then show ?case by auto
next
  case (9 r k n c)
  then show ?case by (cases c) auto
qed simp_all

lemma key_value_new: "key_value (new_OrderedKey x) = Inr x"
  by (cases x) (simp_all add: key_value_def notNull_def)

lemma key_compare_new: "key_compare (new_OrderedKey a) (new_OrderedKey b) = Inr (compare a b)"
  by (cases a; cases b) (simp_all add: key_compare_def notNull_def Hash_compare_def)

lemma set_item_D: "set_item (k, it) \<Longrightarrow> \<exists>a. k = new_OrderedKey a \<and> it = ValueItem a"
  by (cases it) auto

lemma diff_walk_left: "list_all set_item ls \<Longrightarrow> \<exists>rm. diff_walk ls [] = Inr ([], rm, [])"
proof (induction ls)
  case Nil
  then show ?case by simp
next
  case (Cons x ls)
  obtain k it where x: "x = (k, it)" by (cases x)
  with Cons.prems obtain a where a: "k = new_OrderedKey a" using set_item_D by fastforce
  from Cons obtain rm where "diff_walk ls [] = Inr ([], rm, [])" by auto
  then show ?case using x a by (simp add: key_value_new)
qed

lemma diff_walk_right: "list_all set_item cs \<Longrightarrow> \<exists>ad. diff_walk [] cs = Inr (ad, [], [])"
proof (induction cs)
  case Nil
  then show ?case by simp
next
  case (Cons x cs)
  obtain k it where x: "x = (k, it)" by (cases x)
  with Cons.prems obtain a where a: "k = new_OrderedKey a" using set_item_D by fastforce
  from Cons obtain ad where "diff_walk [] cs = Inr (ad, [], [])" by auto
  then show ?case using x a by (simp add: key_value_new)
qed

lemma diff_walk_set:
  "list_all set_item ls \<Longrightarrow> list_all set_item cs \<Longrightarrow> \<exists>ad rm. diff_walk ls cs = Inr (ad, rm, [])"
proof (induction ls cs rule: diff_walk.induct)
  case 1
  then show ?case by simp
next
  case (2 ck ci cs)
  then show ?case using diff_walk_right [of "(ck, ci) # cs"] by blast
next
  case (3 lk li ls)
  then show ?case using diff_walk_left [of "(lk, li) # ls"] by blast
next
  case (4 lk li ls ck ci cs)
  from "4.prems" obtain a b where ab: "lk = new_OrderedKey a" "li = ValueItem a"
      "ck = new_OrderedKey b" "ci = ValueItem b"
    using set_item_D [of lk li] set_item_D [of ck ci] by auto
  have sl: "list_all set_item ls" and sc: "list_all set_item cs" using "4.prems" by simp_all
  have kc: "key_compare ck lk = Inr (compare b a)" using ab by (simp add: key_compare_new)
  have kv: "key_value ck = Inr b" "key_value lk = Inr a" using ab by (simp_all add: key_value_new)
  show ?case
  proof (cases "compare b a = 0")
    case True
    then have "a = b" by (simp add: compare_eq_iff)
    then have e: "equals li ci" using ab by (simp add: equals_def)
    obtain ad rm where "diff_walk ls cs = Inr (ad, rm, [])"
      using "4.IH"(1) [OF kc True e sl sc] by blast
    then show ?thesis using True kc e by simp
  next
    case False
    show ?thesis
    proof (cases "compare b a < 0")
      case True
      obtain ad rm where "diff_walk ((lk, li) # ls) cs = Inr (ad, rm, [])"
        using "4.IH"(3) [OF kc False True kv(1) "4.prems"(1) sc] by blast
      then show ?thesis using kc False True kv by simp
    next
      case f2: False
      obtain ad rm where "diff_walk ls ((ck, ci) # cs) = Inr (ad, rm, [])"
        using "4.IH"(4) [OF kc False f2 kv(2) sl "4.prems"(2)] by blast
      then show ?thesis using kc False f2 kv by simp
    qed
  qed
qed

text \<open>
  C10. For two Sets, the ordered diff has no modified entry: two items of a Set whose keys
  compare equal are the same value, so the walk skips both. The invariant of \<^verbatim>\<open>Set.diff\<close>
  holds and \<^verbatim>\<open>b.diff(a)\<close> returns the pair of the added and the removed values.
\<close>

theorem Set_diff_never_modified:
  assumes "set_tree (col_sequence a)" and "set_tree (col_sequence b)"
  shows "\<exists>added removed.
           ordered_diff (col_sequence a) (col_sequence b) = Inr (added, removed, [])
           \<and> Set_diff b a = Inr (added, removed)"
proof -
  obtain ls where ls: "keyed_items (col_sequence a) = Inr ls" "list_all set_item ls"
    using keyed_items_set_tree(1) [OF assms(1)] by blast
  obtain cs where cs: "keyed_items (col_sequence b) = Inr cs" "list_all set_item cs"
    using keyed_items_set_tree(1) [OF assms(2)] by blast
  obtain ad rm where "diff_walk ls cs = Inr (ad, rm, [])"
    using diff_walk_set [OF ls(2) cs(2)] by blast
  then show ?thesis using ls cs by (simp add: ordered_diff_def Set_diff_def)
qed

theorem Set_diff_never_modified_witness:
  "Set_diff
     (Collection (SetLeafSequence [Prim (2::int), Prim 3, Prim 4] :: (int, nat) Sequence))
     (Collection (MetaSequence
        [MetaTuple 7 (new_OrderedKey (Prim 2)) 2 (Some (SetLeafSequence [Prim 1, Prim 2])),
         MetaTuple 8 (new_OrderedKey (Prim 3)) 1 (Some (SetLeafSequence [Prim 3]))]))
   = Inr ([Prim 4], [Prim 1])"
  using Set_diff_never_modified
    [of "Collection (MetaSequence
           [MetaTuple 7 (new_OrderedKey (Prim 2)) 2
              (Some (SetLeafSequence [Prim (1::int), Prim 2])),
            MetaTuple 8 (new_OrderedKey (Prim 3)) 1 (Some (SetLeafSequence [Prim 3]))]
           :: (int, nat) Sequence)"
        "Collection (SetLeafSequence [Prim (2::int), Prim 3, Prim 4] :: (int, nat) Sequence)"]
  by (simp add: ordered_diff_def Set_diff_def key_compare_def key_value_def notNull_def
        equals_def)

section \<open>The canonical root\<close>

text \<open>
  \<open>descends mt c\<close>: the sequence \<open>c\<close> is reached from the meta tuple \<open>mt\<close> by reading its child
  and then, zero or more times, stepping from a meta sequence that holds exactly one tuple to
  that tuple's child. A sequence is canonical when it is a leaf or holds more than one tuple.
\<close>

inductive descends :: "('p, 'h) MetaTuple \<Rightarrow> ('p, 'h) Sequence \<Rightarrow> bool" where
  here: "child mt = Some c \<Longrightarrow> descends mt c"
| step: "child mt = Some (MetaSequence [mt']) \<Longrightarrow> descends mt' c \<Longrightarrow> descends mt c"

definition canonical :: "('p, 'h) Sequence \<Rightarrow> bool" where
  "canonical c = (\<not> isMeta c \<or> seq_length c > 1)"

lemma canonicalRoot_of_descends:
  "descends mt r \<Longrightarrow> canonical r \<Longrightarrow> canonicalRoot mt = Inr r"
proof (induction rule: descends.induct)
  case (here mt c)
  then show ?case
    by (subst canonicalRoot.simps) (auto simp: mt_getChildSequence_def canonical_def)
next
  case (step mt mt' c)
  then show ?case
    by (subst canonicalRoot.simps)
       (simp add: mt_getChildSequence_def seq_length_def array_get_def)
qed

lemma descends_of_canonicalRoot:
  "canonicalRoot mt = Inr r \<Longrightarrow> descends mt r \<and> canonical r"
proof (induction mt rule: canonicalRoot.induct)
  case (1 mt)
  from "1.prems" obtain c where c: "child mt = Some c"
    by (subst (asm) canonicalRoot.simps)
       (auto simp: mt_getChildSequence_def split: option.splits)
  then have g: "mt_getChildSequence mt = Inr c" by (simp add: mt_getChildSequence_def)
  show ?case
  proof (cases "\<not> isMeta c \<or> seq_length c > 1")
    case True
    then have "r = c" using "1.prems" g by (subst (asm) canonicalRoot.simps) simp
    then show ?thesis using c True by (auto simp: canonical_def intro: descends.here)
  next
    case False
    then obtain mt' where a: "array_get (items c) 0 = Some (TupleItem mt')"
        and r: "canonicalRoot mt' = Inr r"
      using "1.prems" g
      by (subst (asm) canonicalRoot.simps) (auto split: option.splits Item.splits)
    have one: "\<And>xs :: ('a, 'b) MetaTuple list. \<not> Suc 0 < length xs \<Longrightarrow> xs \<noteq> [] \<Longrightarrow> xs = [xs ! 0]"
    proof -
      fix xs :: "('a, 'b) MetaTuple list"
      assume "\<not> Suc 0 < length xs" "xs \<noteq> []"
      then show "xs = [xs ! 0]" by (cases xs) auto
    qed
    from False a have "c = MetaSequence [mt']"
      using one by (cases c) (auto simp: seq_length_def array_get_def split: if_splits)
    moreover have "descends mt' r \<and> canonical r"
      using "1.IH" [OF g False a refl r] .
    ultimately show ?thesis using c by (auto intro: descends.step)
  qed
qed

text \<open>
  C4. Take \<^verbatim>\<open>Done\<close> on a chunker that is not done, and let \<open>sc2\<close> be the chunker once it is marked
  done and \<^verbatim>\<open>finalizeCursor\<close> has run (when there is a cursor). When no parent has pending
  entries, the buffer of \<open>sc2\<close> holds every item of the top level, and: if the chunker is a leaf
  chunker or the buffer holds at least two entries, \<^verbatim>\<open>Done\<close> returns the sequence \<^verbatim>\<open>makeChunk\<close>
  builds from the buffer, writing nothing; if it is not a leaf chunker and the buffer holds
  exactly one meta tuple, \<^verbatim>\<open>Done\<close> returns a sequence \<open>r\<close> exactly when \<open>r\<close> is reached from the
  tuple through meta sequences of a single tuple and is a leaf or a meta sequence of more than
  one tuple: the first such sequence below the tuple.
\<close>

theorem Done_root:
  assumes nd: "\<not> isDone (scFields sc)"
    and fin: "(if cur (scFields sc) \<noteq> None
               then finalizeCursor E (vrw, set_fields sc ((scFields sc)\<lparr>isDone := True\<rparr>))
               else Inr (vrw, set_fields sc ((scFields sc)\<lparr>isDone := True\<rparr>)))
              = Inr (vrw2, sc2)"
    and top: "case parentChunker sc2 of None \<Rightarrow> True | Some p \<Rightarrow> \<not> anyPending p"
  shows "(isLeaf (scFields sc2) \<or> length (current (scFields sc2)) \<ge> 2 \<longrightarrow>
            Done (Suc n) E (vrw, sc) =
              Some (Inr (col_sequence (fst (makeChunk (scFields sc2) (level (scFields sc2))
                                             (current (scFields sc2)))), vrw2)))
       \<and> (\<not> isLeaf (scFields sc2) \<and> current (scFields sc2) = [sequenceEntry k (TupleItem mt)] \<longrightarrow>
            (\<forall>r. (descends mt r \<and> canonical r) = (Done (Suc n) E (vrw, sc) = Some (Inr (r, vrw2)))))"
proof -
  have np: "\<not> (case parentChunker sc2 of None \<Rightarrow> False | Some p \<Rightarrow> anyPending p)"
    using top by (cases "parentChunker sc2") auto
  have cur': "cur (scFields (set_fields sc ((scFields sc)\<lparr>isDone := True\<rparr>))) = cur (scFields sc)"
    by (simp add: set_fields_def)
  have D: "Done (Suc n) E (vrw, sc) =
      (if isLeaf (scFields sc2) \<or> length (current (scFields sc2)) > 1 then
         (case createSequence E False (vrw2, sc2) of
            ((s, mt), (vrw3, sc3)) \<Rightarrow> Some (Inr (s, vrw3)))
       else if \<not> (\<not> isLeaf (scFields sc2) \<and> length (current (scFields sc2)) = 1) then
         Some (Inl Panic)
       else
         (case item (hd (current (scFields sc2))) of
            TupleItem mt \<Rightarrow>
              (case canonicalRoot mt of Inl e \<Rightarrow> Some (Inl e)
               | Inr s \<Rightarrow> Some (Inr (s, vrw2)))
          | _ \<Rightarrow> Some (Inl Panic)))"
    using nd fin np by (simp add: Done_body_def Let_def cur')
  have A: "isLeaf (scFields sc2) \<or> length (current (scFields sc2)) \<ge> 2 \<longrightarrow>
            Done (Suc n) E (vrw, sc) =
              Some (Inr (col_sequence (fst (makeChunk (scFields sc2) (level (scFields sc2))
                                             (current (scFields sc2)))), vrw2))"
    unfolding D
    by (auto simp: createSequence_def Let_def split: prod.splits)
  have B: "\<not> isLeaf (scFields sc2) \<and> current (scFields sc2) = [sequenceEntry k (TupleItem mt)] \<longrightarrow>
            (\<forall>r. (descends mt r \<and> canonical r) = (Done (Suc n) E (vrw, sc) = Some (Inr (r, vrw2))))"
  proof (intro impI allI)
    fix r
    assume h: "\<not> isLeaf (scFields sc2) \<and> current (scFields sc2) = [sequenceEntry k (TupleItem mt)]"
    then have D': "Done (Suc n) E (vrw, sc) =
        (case canonicalRoot mt of Inl e \<Rightarrow> Some (Inl e) | Inr s \<Rightarrow> Some (Inr (s, vrw2)))"
      unfolding D by simp
    show "(descends mt r \<and> canonical r) = (Done (Suc n) E (vrw, sc) = Some (Inr (r, vrw2)))"
    proof
      assume "descends mt r \<and> canonical r"
      then have "canonicalRoot mt = Inr r" by (simp add: canonicalRoot_of_descends)
      then show "Done (Suc n) E (vrw, sc) = Some (Inr (r, vrw2))" using D' by simp
    next
      assume "Done (Suc n) E (vrw, sc) = Some (Inr (r, vrw2))"
      then have "canonicalRoot mt = Inr r" using D' by (auto split: sum.splits)
      then show "descends mt r \<and> canonical r" by (rule descends_of_canonicalRoot)
    qed
  qed
  show ?thesis using A B by blast
qed

theorem Done_root_witness:
  "Done (Suc 0)
     \<lparr>newRollingValueHasher = (\<lambda>b. 0 :: nat), Reset = (\<lambda>r. 0), crossedBoundary = (\<lambda>r. False),
      metaHashValueBytes = (\<lambda>i r. r), Number = (\<lambda>n. ByteItem 0), NewRef = (\<lambda>c. 0 :: nat),
      cursor_parent = (\<lambda>c :: unit. None), resume = Inr, finalizeCursor = Inr\<rparr>
     ([], sequenceChunker
            \<lparr>kind = SetKind, cur = None, level = 2,
             current =
               [sequenceEntry 1 (TupleItem
                  (MetaTuple 5 (new_OrderedKey (Prim 3)) 3
                     (Some (MetaSequence
                        [MetaTuple 4 (new_OrderedKey (Prim (3::int))) 3
                           (Some (SetLeafSequence [Prim 1, Prim 2, Prim 3]))]))))],
             makeChunk = (\<lambda>l es. (Collection EmptySequence, fromHash 0, 0)),
             parentMakeChunk = (\<lambda>l es. (Collection EmptySequence, fromHash 0, 0)),
             isLeaf = False, hashValueBytes = (\<lambda>i r. r), rv = 0, isDone = False,
             unwrittenCol = None\<rparr>
            None)
   = Some (Inr (SetLeafSequence [Prim 1, Prim 2, Prim 3], []))"
proof -
  let ?leaf = "SetLeafSequence [Prim (1::int), Prim 2, Prim 3] :: (int, nat) Sequence"
  let ?mt2 = "MetaTuple (4::nat) (new_OrderedKey (Prim (3::int))) 3 (Some ?leaf)"
  let ?mt = "MetaTuple (5::nat) (new_OrderedKey (Prim (3::int))) 3 (Some (MetaSequence [?mt2]))"
  let ?run = "Done (Suc 0)
     \<lparr>newRollingValueHasher = (\<lambda>b. 0 :: nat), Reset = (\<lambda>r. 0), crossedBoundary = (\<lambda>r. False),
      metaHashValueBytes = (\<lambda>i r. r), Number = (\<lambda>n. ByteItem 0), NewRef = (\<lambda>c. 0 :: nat),
      cursor_parent = (\<lambda>c :: unit. None), resume = Inr, finalizeCursor = Inr\<rparr>
     ([], sequenceChunker
            \<lparr>kind = SetKind, cur = None, level = 2,
             current = [sequenceEntry 1 (TupleItem ?mt)],
             makeChunk = (\<lambda>l es. (Collection EmptySequence, fromHash 0, 0)),
             parentMakeChunk = (\<lambda>l es. (Collection EmptySequence, fromHash 0, 0)),
             isLeaf = False, hashValueBytes = (\<lambda>i r. r), rv = 0, isDone = False,
             unwrittenCol = None\<rparr>
            None)"
  have d: "descends ?mt ?leaf"
    by (rule descends.step [of _ ?mt2]) (simp_all add: descends.here)
  have c: "canonical ?leaf" by (simp add: canonical_def)
  have "\<forall>r. (descends ?mt r \<and> canonical r) = (?run = Some (Inr (r, [])))"
    using Done_root
      [where sc = "sequenceChunker
            \<lparr>kind = SetKind, cur = None :: unit option, level = 2,
             current = [sequenceEntry 1 (TupleItem ?mt)],
             makeChunk = (\<lambda>l es. (Collection EmptySequence, fromHash 0, 0)),
             parentMakeChunk = (\<lambda>l es. (Collection EmptySequence, fromHash 0, 0)),
             isLeaf = False, hashValueBytes = (\<lambda>i r. r), rv = 0 :: nat, isDone = False,
             unwrittenCol = None\<rparr>
            None"
         and E = "\<lparr>newRollingValueHasher = (\<lambda>b. 0 :: nat), Reset = (\<lambda>r. 0),
            crossedBoundary = (\<lambda>r. False), metaHashValueBytes = (\<lambda>i r. r),
            Number = (\<lambda>n. ByteItem 0), NewRef = (\<lambda>c. 0 :: nat),
            cursor_parent = (\<lambda>c :: unit. None), resume = Inr, finalizeCursor = Inr\<rparr>"
         and vrw = "[]" and ?vrw2.0 = "[]"
         and ?sc2.0 = "sequenceChunker
            \<lparr>kind = SetKind, cur = None :: unit option, level = 2,
             current = [sequenceEntry 1 (TupleItem ?mt)],
             makeChunk = (\<lambda>l es. (Collection EmptySequence, fromHash 0, 0)),
             parentMakeChunk = (\<lambda>l es. (Collection EmptySequence, fromHash 0, 0)),
             isLeaf = False, hashValueBytes = (\<lambda>i r. r), rv = 0 :: nat, isDone = True,
             unwrittenCol = None\<rparr>
            None"
         and k = 1 and mt = ?mt and n = 0]
    by (simp add: set_fields_def del: Done.simps)
  then show ?thesis using d c by blast
qed


section \<open>Ordered trees\<close>

text \<open>
  The leaf items of the tree of a Map or a Set, in order, each with the value \<^verbatim>\<open>getKey\<close> wraps
  for it: the key of a Map's entry, and a Set's value itself. This is what iterating the
  collection visits. A child that cannot be read contributes nothing.
\<close>

fun tree_entries :: "('p, 'h) Sequence \<Rightarrow> (('p, 'h) Value \<times> ('p, 'h) Item) list"
and tuples_entries :: "('p, 'h) MetaTuple list \<Rightarrow> (('p, 'h) Value \<times> ('p, 'h) Item) list"
and tuple_entries :: "('p, 'h) MetaTuple \<Rightarrow> (('p, 'h) Value \<times> ('p, 'h) Item) list"
where
  "tree_entries (MapLeafSequence es) = map (\<lambda>e. (fst e, EntryItem e)) es"
| "tree_entries (SetLeafSequence xs) = map (\<lambda>x. (x, ValueItem x)) xs"
| "tree_entries (ListLeafSequence xs) = []"
| "tree_entries (BlobLeafSequence bs) = []"
| "tree_entries EmptySequence = []"
| "tree_entries (MetaSequence ts) = tuples_entries ts"
| "tuples_entries [] = []"
| "tuples_entries (t # ts) = tuple_entries t @ tuples_entries ts"
| "tuple_entries (MetaTuple r k n c) = (case c of None \<Rightarrow> [] | Some s \<Rightarrow> tree_entries s)"

text \<open>
  Two keys are the same for \<^verbatim>\<open>compare\<close> when they are of the same kind and agree on what that
  kind compares by. The key of a meta tuple built by the chunker is the key of its last leaf
  item; read back from a chunk, a key ordered by hash is rebuilt by \<^verbatim>\<open>fromHash\<close> and holds no
  value.
\<close>

definition same_key :: "('p, 'h) OrderedKey \<Rightarrow> ('p, 'h) OrderedKey \<Rightarrow> bool" where
  "same_key a b =
     (isOrderedByValue a = isOrderedByValue b
      \<and> (if isOrderedByValue a then v a = v b else h a = h b))"

text \<open>
  The tree of a Map or a Set is well formed when its leaves are Map or Set leaves, every meta
  sequence holds at least one tuple, and every tuple has a child that can be read, is well
  formed and is not empty, has the key of the child's last item ("for ordered trees the largest
  key in the subtree") and counts the child's leaf items in \<^verbatim>\<open>numLeaves\<close>. It is ordered when
  moreover the keys increase strictly from each leaf item to the next.
\<close>

fun well_formed :: "('p, 'h) Sequence \<Rightarrow> bool"
and well_formed_tuples :: "('p, 'h) MetaTuple list \<Rightarrow> bool"
and well_formed_tuple :: "('p, 'h) MetaTuple \<Rightarrow> bool"
where
  "well_formed (MapLeafSequence es) = True"
| "well_formed (SetLeafSequence xs) = True"
| "well_formed (ListLeafSequence xs) = False"
| "well_formed (BlobLeafSequence bs) = False"
| "well_formed EmptySequence = False"
| "well_formed (MetaSequence ts) = (ts \<noteq> [] \<and> well_formed_tuples ts)"
| "well_formed_tuples [] = True"
| "well_formed_tuples (t # ts) = (well_formed_tuple t \<and> well_formed_tuples ts)"
| "well_formed_tuple (MetaTuple r k n c) =
     (case c of None \<Rightarrow> False
      | Some s \<Rightarrow>
          well_formed s \<and> tree_entries s \<noteq> []
          \<and> same_key k (new_OrderedKey (fst (last (tree_entries s))))
          \<and> n = int (length (tree_entries s)))"

definition ordered_tree :: "('p::linorder, 'h::linorder) Sequence \<Rightarrow> bool" where
  "ordered_tree s = (well_formed s \<and> sorted_wrt (<) (map fst (tree_entries s)))"

text \<open>
  What a cursor shows of a leaf item: \<open>at_entry c (Some (k, item))\<close> when the cursor is valid,
  its current item is \<open>item\<close> and its current key wraps \<open>k\<close>; \<open>at_entry c None\<close> when it is not
  valid.
\<close>

definition at_entry ::
  "('p, 'h) SequenceCursor \<Rightarrow> (('p, 'h) Value \<times> ('p, 'h) Item) option \<Rightarrow> bool" where
  "at_entry c r =
     (case r of None \<Rightarrow> \<not> valid c
      | Some e \<Rightarrow> valid c \<and> getCurrent c = Inr (snd e)
                  \<and> getCurrentKey c = Inr (new_OrderedKey (fst e)))"

lemma tuples_entries_concat: "tuples_entries ts = concat (map tuple_entries ts)"
  by (induction ts) auto

lemma well_formed_tuples_all: "well_formed_tuples ts = list_all well_formed_tuple ts"
  by (induction ts) auto

lemma key_ok_new: "key_ok (new_OrderedKey x)"
  by (cases x) (simp_all add: key_ok_def)

lemma same_key_ok: "same_key a (new_OrderedKey x) \<Longrightarrow> key_ok a"
  by (cases a; cases x) (auto simp: same_key_def key_ok_def split: if_splits)

lemma same_key_compare_left: "same_key a b \<Longrightarrow> key_compare a q = key_compare b q"
  by (cases a; cases b; cases q)
     (auto simp: same_key_def key_compare_def notNull_def split: if_splits option.splits)

lemma same_key_compare_right: "same_key a b \<Longrightarrow> key_compare q a = key_compare q b"
  by (cases a; cases b; cases q)
     (auto simp: same_key_def key_compare_def notNull_def split: if_splits option.splits)

lemmas same_key_compare = same_key_compare_left same_key_compare_right

lemma at_least_new: "at_least (new_OrderedKey a) (new_OrderedKey k) = (k \<le> a)"
  by (simp add: at_least_def key_compare_new compare_ge_iff)

lemma key_le_new: "key_le (new_OrderedKey a) (new_OrderedKey b) = (a \<le> b)"
  by (simp add: key_le_def key_compare_new compare_le_iff)

lemma at_least_same:
  "same_key a (new_OrderedKey x) \<Longrightarrow> at_least a (new_OrderedKey k) = (k \<le> x)"
  using at_least_new [of x k] by (simp add: at_least_def same_key_compare(1))

lemma key_le_same:
  "same_key a (new_OrderedKey x) \<Longrightarrow> same_key b (new_OrderedKey y) \<Longrightarrow> key_le a b = (x \<le> y)"
  using key_le_new [of x y] by (simp add: key_le_def same_key_compare)

lemma find_first_index:
  "j \<le> length xs \<Longrightarrow> (\<forall>i<j. \<not> P (xs ! i)) \<Longrightarrow> (j < length xs \<longrightarrow> P (xs ! j)) \<Longrightarrow>
   find P xs = (if j < length xs then Some (xs ! j) else None)"
proof (induction xs arbitrary: j)
  case Nil
  then show ?case by simp
next
  case (Cons x xs)
  show ?case
  proof (cases j)
    case 0
    with Cons.prems show ?thesis by simp
  next
    case (Suc j')
    have nx: "\<not> P x" using Cons.prems(2) Suc by auto
    have "find P xs = (if j' < length xs then Some (xs ! j') else None)"
    proof (rule Cons.IH)
      show "j' \<le> length xs" using Cons.prems(1) Suc by simp
      show "\<forall>i<j'. \<not> P (xs ! i)" using Cons.prems(2) Suc by auto
      show "j' < length xs \<longrightarrow> P (xs ! j')" using Cons.prems(3) Suc by simp
    qed
    then show ?thesis using nx Suc by simp
  qed
qed

lemma find_append_case:
  "find P (xs @ ys) = (case find P xs of None \<Rightarrow> find P ys | Some x \<Rightarrow> Some x)"
  by (induction xs) auto

lemma sorted_le_last:
  fixes xs :: "('a::linorder \<times> 'b) list"
  shows "sorted_wrt (<) (map fst xs) \<Longrightarrow> e \<in> set xs \<Longrightarrow> fst e \<le> fst (last xs)"
proof (induction xs)
  case Nil
  then show ?case by simp
next
  case (Cons x xs)
  show ?case
  proof (cases "xs = []")
    case True
    with Cons.prems show ?thesis by simp
  next
    case False
    then have l: "last xs \<in> set xs" by simp
    show ?thesis
    proof (cases "e = x")
      case True
      have "fst x < fst (last xs)" using Cons.prems(1) l by auto
      with True False show ?thesis by simp
    next
      case ne: False
      then have "e \<in> set xs" using Cons.prems(2) by simp
      then have "fst e \<le> fst (last xs)" using Cons.IH Cons.prems(1) by simp
      with False show ?thesis by simp
    qed
  qed
qed

lemma find_concat_sorted:
  fixes k :: "'a::linorder"
  assumes "sorted_wrt (<) (map fst (concat xss))" "\<forall>xs\<in>set xss. xs \<noteq> []"
      "j \<le> length xss" "\<forall>i<j. \<not> k \<le> fst (last (xss ! i))"
      "j < length xss \<longrightarrow> k \<le> fst (last (xss ! j))"
  shows "find (\<lambda>e. k \<le> fst e) (concat xss) =
           (if j < length xss then find (\<lambda>e. k \<le> fst e) (xss ! j) else None)"
  using assms
proof (induction xss arbitrary: j)
  case Nil
  then show ?case by simp
next
  case (Cons xs rest)
  have sx: "sorted_wrt (<) (map fst xs)" and sr: "sorted_wrt (<) (map fst (concat rest))"
    using Cons.prems(1) by (simp_all add: sorted_wrt_append)
  have ne: "xs \<noteq> []" using Cons.prems(2) by simp
  show ?case
  proof (cases j)
    case 0
    then have "k \<le> fst (last xs)" using Cons.prems(5) by simp
    moreover have "last xs \<in> set xs" using ne by simp
    ultimately have "find (\<lambda>e. k \<le> fst e) xs \<noteq> None"
      by (metis (mono_tags, lifting) find_None_iff)
    then show ?thesis using 0 by (auto simp: find_append_case)
  next
    case (Suc j')
    have "\<not> k \<le> fst (last xs)" using Cons.prems(4) Suc by auto
    then have "\<And>e. e \<in> set xs \<Longrightarrow> \<not> k \<le> fst e"
      using sorted_le_last [OF sx] by fastforce
    then have none: "find (\<lambda>e. k \<le> fst e) xs = None"
      by (auto simp: find_None_iff)
    have "find (\<lambda>e. k \<le> fst e) (concat rest) =
           (if j' < length rest then find (\<lambda>e. k \<le> fst e) (rest ! j') else None)"
    proof (rule Cons.IH)
      show "sorted_wrt (<) (map fst (concat rest))" by (rule sr)
      show "\<forall>xs\<in>set rest. xs \<noteq> []" using Cons.prems(2) by simp
      show "j' \<le> length rest" using Cons.prems(3) Suc by simp
      show "\<forall>i<j'. \<not> k \<le> fst (last (rest ! i))" using Cons.prems(4) Suc by auto
      show "j' < length rest \<longrightarrow> k \<le> fst (last (rest ! j'))" using Cons.prems(5) Suc by simp
    qed
    then show ?thesis using none Suc by (simp add: find_append_case)
  qed
qed

lemma sorted_concat_nth:
  "sorted_wrt (<) (map fst (concat xss)) \<Longrightarrow> i < length xss \<Longrightarrow>
   sorted_wrt (<) (map fst (xss ! i))"
proof (induction xss arbitrary: i)
  case Nil
  then show ?case by simp
next
  case (Cons xs rest)
  then show ?case by (cases i) (simp_all add: sorted_wrt_append)
qed

lemma sorted_concat_lasts:
  fixes xss :: "('a::linorder \<times> 'b) list list"
  assumes "sorted_wrt (<) (map fst (concat xss))" "\<forall>xs\<in>set xss. xs \<noteq> []"
  shows "sorted_wrt (\<lambda>a b. fst (last a) \<le> fst (last b)) xss"
  using assms
proof (induction xss)
  case Nil
  then show ?case by simp
next
  case (Cons xs rest)
  have ne: "xs \<noteq> []" using Cons.prems(2) by simp
  have "\<And>ys. ys \<in> set rest \<Longrightarrow> fst (last xs) \<le> fst (last ys)"
  proof -
    fix ys assume ys: "ys \<in> set rest"
    then have "ys \<noteq> []" using Cons.prems(2) by simp
    then have "last ys \<in> set ys" by simp
    then have "last ys \<in> set (concat rest)" using ys by (auto intro!: bexI [of _ ys])
    moreover have "last xs \<in> set xs" using ne by simp
    ultimately have "fst (last xs) < fst (last ys)"
      using Cons.prems(1) by (auto simp: sorted_wrt_append)
    then show "fst (last xs) \<le> fst (last ys)" by simp
  qed
  moreover have "sorted_wrt (\<lambda>a b. fst (last a) \<le> fst (last b)) rest"
    using Cons by (simp add: sorted_wrt_append)
  ultimately show ?case by simp
qed

lemma well_formed_tuple_child:
  "well_formed_tuple t \<Longrightarrow>
   \<exists>cs. child t = Some cs \<and> well_formed cs \<and> tuple_entries t = tree_entries cs
        \<and> tree_entries cs \<noteq> []
        \<and> same_key (key t) (new_OrderedKey (fst (last (tree_entries cs))))
        \<and> numLeaves t = int (length (tree_entries cs))"
  by (cases t) (auto split: option.splits)

lemma well_formed_leaf:
  "well_formed s \<Longrightarrow> \<not> isMeta s \<Longrightarrow>
   node_keys s = Some (map (\<lambda>e. new_OrderedKey (fst e)) (tree_entries s))
   \<and> items s = map snd (tree_entries s) \<and> getChildSequence s i = Inr None"
  by (cases s) (auto simp: comp_def)

lemma at_entry_leaf:
  assumes its: "items s = map snd es" and nk: "node_keys s = Some (map (\<lambda>e. new_OrderedKey (fst e)) es)"
    and j: "0 \<le> j" "j \<le> int (length es)"
  shows "at_entry (SequenceCursor p s j) (if nat j < length es then Some (es ! nat j) else None)"
proof (cases "nat j < length es")
  case True
  have len: "seq_length s = int (length es)" using its by (simp add: seq_length_def)
  have v: "valid (SequenceCursor p s j)"
    using True j by (simp add: valid_def cursor_length_def len)
  have "getKey s j = Inr (map (\<lambda>e. new_OrderedKey (fst e)) es ! nat j)"
    using node_keys_getKey [OF nk, of j] True j len by simp
  then have k: "getCurrentKey (SequenceCursor p s j) = Inr (new_OrderedKey (fst (es ! nat j)))"
    using v True by (simp add: getCurrentKey_def)
  have "getCurrent (SequenceCursor p s j) = Inr (snd (es ! nat j))"
    using v True j by (simp add: getCurrent_def its array_get_def)
  then show ?thesis using True v k by (simp add: at_entry_def)
next
  case False
  have len: "seq_length s = int (length es)" using its by (simp add: seq_length_def)
  have "\<not> valid (SequenceCursor p s j)"
    using False j by (simp add: valid_def cursor_length_def len)
  then show ?thesis using False by (simp add: at_entry_def)
qed

lemma newCursorAtKey_loop_leaf:
  assumes wf: "well_formed s" and leaf: "\<not> isMeta s"
    and srt: "sorted_wrt (<) (map fst (tree_entries s))"
  shows "\<exists>c. newCursorAtKey_loop p s (Some (new_OrderedKey k)) fi False = Inr c
             \<and> at_entry c (find (\<lambda>e. k \<le> fst e) (tree_entries s))"
proof -
  let ?K = "new_OrderedKey k"
  let ?c0 = "SequenceCursor p s 0"
  define es where "es = tree_entries s"
  define ks where "ks = map (\<lambda>e. new_OrderedKey (fst e)) es"
  have nk: "node_keys s = Some ks" and its: "items s = map snd es"
    and gc: "\<And>i. getChildSequence s i = Inr None"
    using well_formed_leaf [OF wf leaf] by (simp_all add: es_def ks_def)
  have nk': "node_keys (sequence ?c0) = Some ks" using nk by simp
  have "sorted_wrt (\<le>) (map fst es)"
    using srt unfolding es_def by (rule sorted_wrt_mono_rel [rotated]) simp
  then have ok: "ordered_keys ks"
    by (simp add: ordered_keys_def ks_def list_all_iff key_ok_new sorted_wrt_map key_le_new)
  have n: "cursor_length ?c0 = int (length es)"
    using its by (simp add: cursor_length_def seq_length_def)
  obtain j where j: "0 \<le> j" "j \<le> int (length es)"
      "\<forall>i. i < nat j \<longrightarrow> \<not> at_least (ks ! i) ?K"
      "j < int (length es) \<longrightarrow> at_least (ks ! nat j) ?K"
      "seekTo ?K False ?c0 = Inr (j < int (length es), set_idx ?c0 j)"
    using seekTo_spec [OF nk' ok key_ok_new, of k False] unfolding n by auto
  have fnd: "find (\<lambda>e. k \<le> fst e) es = (if nat j < length es then Some (es ! nat j) else None)"
  proof (rule find_first_index)
    show "nat j \<le> length es" using j by simp
    show "\<forall>i<nat j. \<not> k \<le> fst (es ! i)"
    proof (intro allI impI)
      fix i assume i: "i < nat j"
      then have il: "i < length es" using j by simp
      have "\<not> at_least (ks ! i) ?K" using j(3) i by blast
      then show "\<not> k \<le> fst (es ! i)" using il by (simp add: ks_def at_least_new)
    qed
    show "nat j < length es \<longrightarrow> k \<le> fst (es ! nat j)"
      using j(1,4) by (simp add: ks_def at_least_new)
  qed
  have loop: "newCursorAtKey_loop p s (Some ?K) fi False = Inr (SequenceCursor p s j)"
    by (subst newCursorAtKey_loop.simps)
       (simp add: new_SequenceCursor_def leaf j(5) gc set_idx_def Let_def split: bool.splits)
  have "at_entry (SequenceCursor p s j) (find (\<lambda>e. k \<le> fst e) es)"
    unfolding fnd using its nk j(1,2) unfolding ks_def by (rule at_entry_leaf)
  then show ?thesis using loop by (simp add: es_def)
qed

lemma newCursorAtKey_loop_found:
  assumes "well_formed s" "sorted_wrt (<) (map fst (tree_entries s))"
  shows "\<exists>c. newCursorAtKey_loop p s (Some (new_OrderedKey k)) fi False = Inr c
             \<and> at_entry c (find (\<lambda>e. k \<le> fst e) (tree_entries s))"
  using assms
proof (induction "size s" arbitrary: s p rule: less_induct)
  case less
  let ?K = "new_OrderedKey k"
  let ?P = "\<lambda>e. k \<le> fst e"
  show ?case
  proof (cases "isMeta s")
    case False
    with less.prems show ?thesis by (intro newCursorAtKey_loop_leaf) auto
  next
    case True
    then obtain ts where s: "s = MetaSequence ts" by (cases s) auto
    let ?c0 = "SequenceCursor p s 0"
    define xss where "xss = map tuple_entries ts"
    define n where "n = int (length ts)"
    have ts: "ts \<noteq> []" and wft: "\<And>t. t \<in> set ts \<Longrightarrow> well_formed_tuple t"
      using less.prems(1) s by (simp_all add: well_formed_tuples_all list_all_iff)
    have npos: "n > 0" using ts by (simp add: n_def)
    have ent: "tree_entries s = concat xss"
      by (simp add: s xss_def tuples_entries_concat)
    have srt: "sorted_wrt (<) (map fst (concat xss))" using less.prems(2) ent by simp
    have ne: "\<forall>xs\<in>set xss. xs \<noteq> []"
      using wft well_formed_tuple_child by (fastforce simp: xss_def)
    have ch: "\<And>i. i < length ts \<Longrightarrow>
        \<exists>cs. child (ts ! i) = Some cs \<and> well_formed cs \<and> xss ! i = tree_entries cs
            \<and> same_key (key (ts ! i)) (new_OrderedKey (fst (last (xss ! i))))"
    proof -
      fix i assume i: "i < length ts"
      then have "well_formed_tuple (ts ! i)" using wft by simp
      from well_formed_tuple_child [OF this] show "\<exists>cs. child (ts ! i) = Some cs \<and> well_formed cs \<and> xss ! i = tree_entries cs
            \<and> same_key (key (ts ! i)) (new_OrderedKey (fst (last (xss ! i))))"
        using i by (auto simp: xss_def)
    qed
    have sk: "\<And>i. i < length ts \<Longrightarrow>
        same_key (key (ts ! i)) (new_OrderedKey (fst (last (xss ! i))))"
      using ch by blast
    define ks where "ks = map key ts"
    have nk: "node_keys (sequence ?c0) = Some ks" by (simp add: s ks_def)
    have lasts: "sorted_wrt (\<lambda>a b. fst (last a) \<le> fst (last b)) xss"
      using srt ne by (rule sorted_concat_lasts)
    have ok: "ordered_keys ks"
    proof -
      have "list_all key_ok ks"
        using sk same_key_ok by (fastforce simp: ks_def list_all_length)
      moreover have "sorted_wrt key_le ks"
        unfolding sorted_wrt_iff_nth_less
      proof (intro allI impI)
        fix i j assume ij: "i < j" "j < length ks"
        then have l: "i < length ts" "j < length ts" by (simp_all add: ks_def)
        have "fst (last (xss ! i)) \<le> fst (last (xss ! j))"
          using lasts ij l by (simp add: sorted_wrt_iff_nth_less xss_def)
        then show "key_le (ks ! i) (ks ! j)"
          using key_le_same [OF sk [OF l(1)] sk [OF l(2)]] l by (simp add: ks_def)
      qed
      ultimately show ?thesis by (simp add: ordered_keys_def)
    qed
    have cl: "cursor_length ?c0 = n"
      by (simp add: cursor_length_def seq_length_def s n_def)
    obtain j where j: "0 \<le> j" "j \<le> n"
        "\<forall>i. i < nat j \<longrightarrow> \<not> at_least (ks ! i) ?K"
        "j < n \<longrightarrow> at_least (ks ! nat j) ?K"
        "seekTo ?K fi ?c0 =
           (if j = n \<and> fi then Inr (True, set_idx ?c0 (n - 1))
            else Inr (j < n, set_idx ?c0 j))"
      using seekTo_spec [OF nk ok key_ok_new, of k fi] npos unfolding cl by auto
    have al: "\<And>i. i < length ts \<Longrightarrow> at_least (ks ! i) ?K = (k \<le> fst (last (xss ! i)))"
      using at_least_same [OF sk] by (simp add: ks_def)
    have lx: "length xss = length ts" by (simp add: xss_def)
    have fnd: "find ?P (concat xss) =
                 (if nat j < length xss then find ?P (xss ! nat j) else None)"
    proof (rule find_concat_sorted [OF srt ne])
      show "nat j \<le> length xss" using j(2) by (simp add: lx n_def)
      show "\<forall>i<nat j. \<not> k \<le> fst (last (xss ! i))"
      proof (intro allI impI)
        fix i assume i: "i < nat j"
        then have il: "i < length ts" using j(2) by (simp add: n_def)
        have "\<not> at_least (ks ! i) ?K" using j(3) i by blast
        then show "\<not> k \<le> fst (last (xss ! i))" using al [OF il] by simp
      qed
      show "nat j < length xss \<longrightarrow> k \<le> fst (last (xss ! nat j))"
      proof
        assume a: "nat j < length xss"
        then have "j < n" using j(1) by (simp add: lx n_def)
        then have "at_least (ks ! nat j) ?K" using j(4) by simp
        then show "k \<le> fst (last (xss ! nat j))" using al [of "nat j"] a lx by simp
      qed
    qed
    have step: "\<And>m b. 0 \<le> m \<Longrightarrow> m < n \<Longrightarrow> seekTo ?K fi ?c0 = Inr (True, set_idx ?c0 m) \<Longrightarrow>
        \<exists>c. newCursorAtKey_loop p s (Some ?K) fi False = Inr c
            \<and> at_entry c (find ?P (xss ! nat m))"
    proof -
      fix m assume m: "0 \<le> m" "m < n" and sk: "seekTo ?K fi ?c0 = Inr (True, set_idx ?c0 m)"
      have ml: "nat m < length ts" using m by (simp add: n_def)
      obtain cs where cs: "child (ts ! nat m) = Some cs" "well_formed cs"
          "xss ! nat m = tree_entries cs"
        using ch [OF ml] by blast
      have gc: "getChildSequence s m = Inr (Some cs)"
        using m ml cs(1) by (simp add: s array_get_def mt_getChildSequence_def)
      have sz: "size cs < size s" using gc by (rule size_child_less)
      have "sorted_wrt (<) (map fst (tree_entries cs))"
        using sorted_concat_nth [OF srt, of "nat m"] ml lx cs(3) by simp
      from less.hyps [OF sz cs(2) this, of "Some (SequenceCursor p s m)"]
      obtain c where c: "newCursorAtKey_loop (Some (SequenceCursor p s m)) cs (Some ?K) fi False = Inr c"
          "at_entry c (find ?P (tree_entries cs))" by blast
      have "newCursorAtKey_loop p s (Some ?K) fi False = Inr c"
        by (subst newCursorAtKey_loop.simps)
           (simp add: new_SequenceCursor_def True sk gc set_idx_def Let_def c(1))
      then show "\<exists>c. newCursorAtKey_loop p s (Some ?K) fi False = Inr c
            \<and> at_entry c (find ?P (xss ! nat m))" using c(2) cs(3) by simp
    qed
    show ?thesis
    proof (cases "j < n")
      case jn: True
      then have "seekTo ?K fi ?c0 = Inr (True, set_idx ?c0 j)" using j(5) by simp
      moreover have "nat j < length ts" using jn j(1) by (simp add: n_def)
      ultimately show ?thesis
        using step [OF j(1) jn] fnd by (simp add: ent lx)
    next
      case jn: False
      then have jeq: "j = n" using j(2) by simp
      have none: "find ?P (concat xss) = None" using fnd jeq by (simp add: lx n_def)
      show ?thesis
      proof (cases fi)
        case False
        then have "seekTo ?K fi ?c0 = Inr (False, set_idx ?c0 n)" using j(5) jeq by simp
        then have "newCursorAtKey_loop p s (Some ?K) fi False = Inr (SequenceCursor p s n)"
          by (subst newCursorAtKey_loop.simps)
             (simp add: new_SequenceCursor_def True set_idx_def Let_def)
        moreover have "\<not> valid (SequenceCursor p s n)"
          by (simp add: valid_def cursor_length_def seq_length_def s n_def)
        ultimately show ?thesis using none by (simp add: ent at_entry_def)
      next
        case fi: True
        then have sk': "seekTo ?K fi ?c0 = Inr (True, set_idx ?c0 (n - 1))"
          using j(5) jeq by simp
        have m: "0 \<le> n - 1" "n - 1 < n" using npos by simp_all
        have l: "nat (n - 1) < length ts" using npos unfolding n_def by linarith
        have "\<not> at_least (ks ! nat (n - 1)) ?K" using j(3) jeq npos by simp
        then have nl: "\<not> k \<le> fst (last (xss ! nat (n - 1)))" using al [OF l] by simp
        have "sorted_wrt (<) (map fst (xss ! nat (n - 1)))"
          using sorted_concat_nth [OF srt, of "nat (n - 1)"] l lx by simp
        then have "\<And>e. e \<in> set (xss ! nat (n - 1)) \<Longrightarrow> \<not> k \<le> fst e"
          using sorted_le_last nl by fastforce
        then have "find ?P (xss ! nat (n - 1)) = None" by (auto simp: find_None_iff)
        with step [OF m sk'] show ?thesis using none by (simp add: ent)
      qed
    qed
  qed
qed

section \<open>Size and lookup in an ordered tree\<close>

lemma find_map_entries: "find P (map f xs) = map_option f (find (\<lambda>x. P (f x)) xs)"
  by (induction xs) auto

lemma map_of_sorted_find:
  fixes es :: "('a::linorder \<times> 'b) list"
  assumes "sorted_wrt (<) (map fst es)"
  shows "map_of es k =
           (case find (\<lambda>e. k \<le> fst e) es of None \<Rightarrow> None
            | Some e \<Rightarrow> if fst e = k then Some (snd e) else None)"
  using assms
proof (induction es)
  case Nil
  then show ?case by simp
next
  case (Cons e rest)
  show ?case
  proof (cases "k \<le> fst e")
    case True
    show ?thesis
    proof (cases "fst e = k")
      case eq: True
      then show ?thesis using True by (cases e) simp
    next
      case ne: False
      then have "k < fst e" using True by simp
      then have "\<And>r. r \<in> set rest \<Longrightarrow> fst r \<noteq> k" using Cons.prems by fastforce
      then have "map_of rest k = None" by (force simp: map_of_eq_None_iff)
      then show ?thesis using True ne by (cases e) simp
    qed
  next
    case False
    then have "fst e \<noteq> k" by auto
    moreover have "map_of rest k =
           (case find (\<lambda>e. k \<le> fst e) rest of None \<Rightarrow> None
            | Some e \<Rightarrow> if fst e = k then Some (snd e) else None)"
      using Cons by simp
    ultimately show ?thesis using False by (cases e) simp
  qed
qed

lemma member_sorted_find:
  fixes xs :: "('a::linorder) list"
  assumes "sorted_wrt (<) xs"
  shows "(k \<in> set xs) =
           (case find (\<lambda>x. k \<le> x) xs of None \<Rightarrow> False | Some x \<Rightarrow> x = k)"
  using assms
proof (induction xs)
  case Nil
  then show ?case by simp
next
  case (Cons x rest)
  show ?case
  proof (cases "k \<le> x")
    case True
    have "x \<noteq> k \<Longrightarrow> k \<notin> set rest" using True Cons.prems by fastforce
    then show ?thesis using True by auto
  next
    case False
    then have "x \<noteq> k" by auto
    then show ?thesis using False Cons by simp
  qed
qed







section \<open>Constructing a Map and a Set\<close>




section \<open>Updates that change nothing\<close>

lemma cursor_at_key_found:
  fixes es :: "(('p::linorder, 'h::linorder) Value \<times> ('p, 'h) Item) list"
  assumes srt: "sorted_wrt (<) (map fst es)"
    and at: "at_entry c (find (\<lambda>e. k \<le> fst e) es)"
  shows "cursor_at_key c k = Inr (k \<in> fst ` set es)"
    and "(k, it) \<in> set es \<Longrightarrow> valid c \<and> getCurrent c = Inr it"
proof -
  have fm: "find (\<lambda>x. k \<le> x) (map fst es) = map_option fst (find (\<lambda>e. k \<le> fst e) es)"
    by (simp add: find_map_entries)
  have mem: "(k \<in> fst ` set es) =
               (case find (\<lambda>e. k \<le> fst e) es of None \<Rightarrow> False | Some e \<Rightarrow> fst e = k)"
    using member_sorted_find [OF srt, of k] unfolding fm
    by (simp split: option.splits)
  show "cursor_at_key c k = Inr (k \<in> fst ` set es)"
  proof (cases "find (\<lambda>e. k \<le> fst e) es")
    case None
    then show ?thesis using at mem by (simp add: at_entry_def cursor_at_key_def)
  next
    case (Some e)
    then show ?thesis using at mem
      by (simp add: at_entry_def cursor_at_key_def key_value_new equals_def)
  qed
  show "valid c \<and> getCurrent c = Inr it" if "(k, it) \<in> set es"
  proof -
    have "distinct (map fst es)" using srt by (simp add: strict_sorted_iff)
    then have m: "map_of es k = Some it" using that by simp
    then obtain e where e: "find (\<lambda>e. k \<le> fst e) es = Some e" "snd e = it"
      using map_of_sorted_find [OF srt, of k]
      by (auto split: option.splits if_splits)
    then show ?thesis using at by (simp add: at_entry_def)
  qed
qed

text \<open>
  C9. On a Map or Set whose tree is ordered, \<^verbatim>\<open>set(k, v)\<close> returns the Map itself when the tree
  holds the entry \<open>(k, v)\<close>, \<^verbatim>\<open>delete(k)\<close> returns the Map itself when the tree holds no entry
  with the key \<open>k\<close>, and \<^verbatim>\<open>add(v)\<close> returns the Set itself when the tree holds the value \<open>v\<close>:
  none of them raises an error or calls the chunker, whatever the chunker is. The presence of a
  key among the leaf items of the tree is what \<^verbatim>\<open>has\<close> answers.
\<close>

theorem benign_updates_return_self:
  assumes "ordered_tree (col_sequence m)"
  shows "((k, EntryItem (k, val)) \<in> set (tree_entries (col_sequence m)) \<longrightarrow>
            Map_set chunkSequence m k val = Inr m)
         \<and> (k \<notin> fst ` set (tree_entries (col_sequence m)) \<longrightarrow>
            Map_delete chunkSequence m k = Inr m)
         \<and> ((k, ValueItem k) \<in> set (tree_entries (col_sequence m)) \<longrightarrow>
            Set_add chunkSequence m k = Inr m)
         \<and> Map_has m k = Inr (k \<in> fst ` set (tree_entries (col_sequence m)))
         \<and> Set_has m k = Inr (k \<in> fst ` set (tree_entries (col_sequence m)))"
proof -
  let ?s = "col_sequence m"
  let ?es = "tree_entries ?s"
  have wf: "well_formed ?s" and srt: "sorted_wrt (<) (map fst ?es)"
    using assms by (simp_all add: ordered_tree_def)
  obtain ci where ci: "newCursorAtKey_loop None ?s (Some (new_OrderedKey k)) True False = Inr ci"
      "at_entry ci (find (\<lambda>e. k \<le> fst e) ?es)"
    using newCursorAtKey_loop_found [OF wf srt] by blast
  obtain c where c: "newCursorAtKey_loop None ?s (Some (new_OrderedKey k)) False False = Inr c"
      "at_entry c (find (\<lambda>e. k \<le> fst e) ?es)"
    using newCursorAtKey_loop_found [OF wf srt] by blast
  have curi: "newCursorAtValue ?s (Some k) True False = Inr ci"
    using ci(1) by (simp add: newCursorAtValue_def newCursorAtKey_def)
  have cur: "newCursorAtValue ?s (Some k) False False = Inr c"
    using c(1) by (simp add: newCursorAtValue_def newCursorAtKey_def)
  have ki: "cursor_at_key ci k = Inr (k \<in> fst ` set ?es)"
    using srt ci(2) by (rule cursor_at_key_found(1))
  have kc: "cursor_at_key c k = Inr (k \<in> fst ` set ?es)"
    using srt c(2) by (rule cursor_at_key_found(1))
  have 1: "Map_set chunkSequence m k val = Inr m"
    if "(k, EntryItem (k, val)) \<in> set ?es"
  proof -
    have "getCurrent ci = Inr (EntryItem (k, val))"
      using cursor_at_key_found(2) [OF srt ci(2) that] by simp
    moreover have "k \<in> fst ` set ?es" using that by force
    ultimately show ?thesis using curi ki by (simp add: Map_set_def equals_def)
  qed
  have 2: "Map_delete chunkSequence m k = Inr m" if "k \<notin> fst ` set ?es"
    using cur kc that by (simp add: Map_delete_def)
  have 3: "Set_add chunkSequence m k = Inr m" if "(k, ValueItem k) \<in> set ?es"
  proof -
    have "k \<in> fst ` set ?es" using that by force
    then show ?thesis using curi ki by (simp add: Set_add_def)
  qed
  have 4: "Map_has m k = Inr (k \<in> fst ` set ?es)"
    using cur kc by (simp add: Map_has_def)
  have 5: "Set_has m k = Inr (k \<in> fst ` set ?es)"
    using cur kc by (simp add: Set_has_def)
  show ?thesis using 1 2 3 4 5 by blast
qed

theorem benign_updates_return_self_witness:
  "Map_set (\<lambda>c ins rem. Inl Unsupported)
     (Collection (MetaSequence
       [MetaTuple (0::nat) (new_OrderedKey (Prim (JsNumber 1))) 1
          (Some (MapLeafSequence [(Prim (JsNumber 1), Prim (JsString ''b''))])),
        MetaTuple 1 (new_OrderedKey (Prim (JsNumber 2))) 1
          (Some (MapLeafSequence [(Prim (JsNumber 2), Prim (JsString ''c''))]))]))
     (Prim (JsNumber 2)) (Prim (JsString ''c''))
   = Inr (Collection (MetaSequence
       [MetaTuple (0::nat) (new_OrderedKey (Prim (JsNumber 1))) 1
          (Some (MapLeafSequence [(Prim (JsNumber 1), Prim (JsString ''b''))])),
        MetaTuple 1 (new_OrderedKey (Prim (JsNumber 2))) 1
          (Some (MapLeafSequence [(Prim (JsNumber 2), Prim (JsString ''c''))]))]))
   \<and> Map_delete (\<lambda>c ins rem. Inl Unsupported)
     (Collection (MetaSequence
       [MetaTuple (0::nat) (new_OrderedKey (Prim (JsNumber 1))) 1
          (Some (MapLeafSequence [(Prim (JsNumber 1), Prim (JsString ''b''))])),
        MetaTuple 1 (new_OrderedKey (Prim (JsNumber 2))) 1
          (Some (MapLeafSequence [(Prim (JsNumber 2), Prim (JsString ''c''))]))]))
     (Prim (JsNumber 3))
   = Inr (Collection (MetaSequence
       [MetaTuple (0::nat) (new_OrderedKey (Prim (JsNumber 1))) 1
          (Some (MapLeafSequence [(Prim (JsNumber 1), Prim (JsString ''b''))])),
        MetaTuple 1 (new_OrderedKey (Prim (JsNumber 2))) 1
          (Some (MapLeafSequence [(Prim (JsNumber 2), Prim (JsString ''c''))]))]))
   \<and> Set_add (\<lambda>c ins rem. Inl Unsupported)
     (Collection (SetLeafSequence [Prim (JsNumber 1), Prim (JsNumber 3) :: (prim, nat) Value]))
     (Prim (JsNumber 3))
   = Inr (Collection (SetLeafSequence [Prim (JsNumber 1), Prim (JsNumber 3)]))"
proof -
  let ?m = "Collection (MetaSequence
       [MetaTuple (0::nat) (new_OrderedKey (Prim (JsNumber 1))) 1
          (Some (MapLeafSequence [(Prim (JsNumber 1), Prim (JsString ''b''))])),
        MetaTuple 1 (new_OrderedKey (Prim (JsNumber 2))) 1
          (Some (MapLeafSequence [(Prim (JsNumber 2), Prim (JsString ''c''))]))])"
  let ?s = "Collection (SetLeafSequence [Prim (JsNumber 1), Prim (JsNumber 3)
              :: (prim, nat) Value])"
  let ?f = "\<lambda>(c :: (prim, nat) SequenceCursor) (ins :: (prim, nat) Item list) (rem :: int).
              Inl Unsupported :: error + (prim, nat) Sequence"
  have om: "ordered_tree (col_sequence ?m)"
    by (simp add: ordered_tree_def same_key_def less_Value_def less_prim_def)
  have os: "ordered_tree (col_sequence ?s)"
    by (simp add: ordered_tree_def less_Value_def less_prim_def)
  have "Map_set ?f ?m (Prim (JsNumber 2)) (Prim (JsString ''c'')) = Inr ?m"
    using benign_updates_return_self [OF om, of "Prim (JsNumber 2)" "Prim (JsString ''c'')" ?f]
    by simp
  moreover have "Map_delete ?f ?m (Prim (JsNumber 3)) = Inr ?m"
    using benign_updates_return_self [OF om, of "Prim (JsNumber 3)" "Prim (JsString ''c'')" ?f]
    by simp
  moreover have "Set_add ?f ?s (Prim (JsNumber 3)) = Inr ?s"
    using benign_updates_return_self [OF os, of "Prim (JsNumber 3)" "Prim (JsString ''c'')" ?f]
    by simp
  ultimately show ?thesis by simp
qed

section \<open>Cursors by index on a leaf\<close>

text \<open>
  On a leaf, \<^verbatim>\<open>cumulativeNumberOfLeaves(i)\<close> is \<open>i\<close>, so the search of \<^verbatim>\<open>advanceToOffset\<close> for the
  smallest \<open>i\<close> with \<open>idx < i\<close> stops at \<open>idx + 1\<close>, or at the length of the leaf when that is
  smaller: \<^verbatim>\<open>newCursorAtIndex\<close> on a tree of one leaf returns a cursor one item after \<open>idx\<close>.
\<close>

lemma search_first_greater:
  assumes a: "0 \<le> a" and n: "0 \<le> n"
  shows "search n (\<lambda>j. Inr (js_less (Some a) (Some j))) = Inr (min (a + 1) n)"
proof -
  let ?f = "\<lambda>j. Inr (js_less (Some a) (Some j)) :: error + bool"
  have "\<exists>r. search_loop ?f 0 n = Inr r \<and> 0 \<le> r \<and> r \<le> n
           \<and> (\<forall>i. 0 \<le> i \<and> i < r \<longrightarrow> \<not> a < i) \<and> (\<forall>i. r \<le> i \<and> i < n \<longrightarrow> a < i)"
  proof (rule search_loop_spec)
    show "0 \<le> n" by (rule n)
    show "\<And>i. 0 \<le> i \<Longrightarrow> i < n \<Longrightarrow> ?f i = Inr (a < i)" by (simp add: js_less_def)
    show "\<And>i j. 0 \<le> i \<Longrightarrow> i \<le> j \<Longrightarrow> j < n \<Longrightarrow> a < i \<Longrightarrow> a < j" by simp
  qed
  then obtain r where r: "search_loop ?f 0 n = Inr r" "0 \<le> r" "r \<le> n"
      "\<forall>i. 0 \<le> i \<and> i < r \<longrightarrow> \<not> a < i" "\<forall>i. r \<le> i \<and> i < n \<longrightarrow> a < i"
    by blast
  have "r = min (a + 1) n"
  proof (cases "a + 1 \<le> n")
    case True
    have "\<not> r \<le> a"
    proof
      assume "r \<le> a"
      then have "r \<le> r \<and> r < n" using True by simp
      then have "a < r" using r(5) by blast
      then show False using \<open>r \<le> a\<close> by simp
    qed
    moreover have "\<not> a + 1 < r"
    proof
      assume "a + 1 < r"
      then have "0 \<le> a + 1 \<and> a + 1 < r" using a by simp
      then have "\<not> a < a + 1" using r(4) by blast
      then show False by simp
    qed
    ultimately show ?thesis using True by simp
  next
    case False
    have "\<not> r < n"
    proof
      assume "r < n"
      then have "a < r" using r(5) by simp
      then show False using \<open>r < n\<close> False by simp
    qed
    then show ?thesis using r(3) False by simp
  qed
  then show ?thesis using r(1) by (simp add: search_def)
qed

lemma leaf_cumulative: "\<not> isMeta s \<Longrightarrow> cumulativeNumberOfLeaves s j = Some j"
  by (cases s) simp_all

lemma leaf_no_child: "\<not> isMeta s \<Longrightarrow> getChildSequence s j = Inr None"
  by (cases s) simp_all

lemma newCursorAtIndex_leaf:
  assumes leaf: "\<not> isMeta s" and a: "0 \<le> a"
  shows "newCursorAtIndex s a = Inr (SequenceCursor None s (min (a + 1) (seq_length s)))"
proof -
  have n: "0 \<le> seq_length s" by (simp add: seq_length_def)
  have "advanceToOffset (new_SequenceCursor None s 0) (Some a) =
          (if min (a + 1) (seq_length s) > 0 then Some (min (a + 1) (seq_length s) - 1) else Some 0,
           SequenceCursor None s (min (a + 1) (seq_length s)))"
    using search_first_greater [OF a n] leaf
    by (simp add: advanceToOffset_def new_SequenceCursor_def cursor_length_def leaf_cumulative
          set_idx_def Let_def)
  then show ?thesis
    unfolding newCursorAtIndex_def
    by (subst newCursorAtIndex_loop.simps) (simp add: leaf_no_child [OF leaf])
qed

text \<open>
  C8, as the code has it, on a Blob of one leaf. \<^verbatim>\<open>seek\<close> computes the position \<open>t\<close> as the claim
  says: the offset for whence 0, the current position plus the offset for whence 1, the length
  plus the offset for whence 2. A negative \<open>t\<close> fails the invariant; otherwise \<open>t\<close> becomes the
  position. But the cursor \<^verbatim>\<open>seek\<close> leaves stands at index \<open>t + 1\<close> of the leaf, not at \<open>t\<close>: the
  next \<^verbatim>\<open>read\<close> returns the bytes from \<open>t + 1\<close> on, and reports the end of the blob when \<open>t\<close> is
  its last byte or beyond.
\<close>

theorem seek_then_read_single_leaf:
  assumes lock: "r_lock r = []" and sq: "r_sequence r = BlobLeafSequence bs"
    and w: "whence = 0 \<or> whence = 1 \<or> whence = 2"
    and t: "t = (if whence = 0 then offset else if whence = 1 then r_pos r + offset
                 else int (length bs) + offset)"
  shows "(t < 0 \<longrightarrow> seek r offset whence = Inl InvariantError)
     \<and> (0 \<le> t \<longrightarrow>
          seek r offset whence =
            Inr (t, r\<lparr>r_cursor := Inr (SequenceCursor None (BlobLeafSequence bs)
                                        (min (t + 1) (int (length bs)))),
                     r_pos := t\<rparr>))
     \<and> (0 \<le> t \<and> t + 1 < int (length bs) \<longrightarrow>
          read (r\<lparr>r_cursor := Inr (SequenceCursor None (BlobLeafSequence bs)
                                      (min (t + 1) (int (length bs)))),
                   r_pos := t\<rparr>) =
            Inr (ReadValue (drop (nat (t + 1)) bs),
                 r\<lparr>r_cursor := Inr (SequenceCursor None (BlobLeafSequence bs) (int (length bs))),
                   r_pos := t + int (length (drop (nat (t + 1)) bs))\<rparr>))
     \<and> (0 \<le> t \<and> int (length bs) \<le> t + 1 \<longrightarrow>
          read (r\<lparr>r_cursor := Inr (SequenceCursor None (BlobLeafSequence bs)
                                      (min (t + 1) (int (length bs)))),
                   r_pos := t\<rparr>) =
            Inr (ReadDone,
                 r\<lparr>r_cursor := Inr (SequenceCursor None (BlobLeafSequence bs)
                                      (min (t + 1) (int (length bs)))),
                   r_pos := t\<rparr>))"
proof -
  let ?s = "BlobLeafSequence bs :: ('a, 'b) Sequence"
  have len: "seq_length ?s = int (length bs)" by (simp add: seq_length_def)
  have tgt: "(if whence = 0 then Some offset else if whence = 1 then Some (r_pos r + offset)
              else js_plus (seq_numLeaves (r_sequence r)) (Some offset)) = Some t"
    using t by (simp add: sq js_plus_def len)
  have 1: "seek r offset whence = Inl InvariantError" if "t < 0"
    using that w lock tgt by (auto simp: seek_def Let_def)
  have 2: "seek r offset whence =
            Inr (t, r\<lparr>r_cursor := Inr (SequenceCursor None ?s (min (t + 1) (int (length bs)))),
                     r_pos := t\<rparr>)" if "0 \<le> t"
  proof -
    have "newCursorAtIndex ?s t = Inr (SequenceCursor None ?s (min (t + 1) (int (length bs))))"
      using newCursorAtIndex_leaf [of ?s t] that by (simp add: len)
    then show ?thesis using that w lock tgt by (auto simp: seek_def Let_def sq)
  qed
  have 3: "read (r\<lparr>r_cursor := Inr (SequenceCursor None ?s (min (t + 1) (int (length bs)))),
                   r_pos := t\<rparr>) =
            Inr (ReadValue (drop (nat (t + 1)) bs),
                 r\<lparr>r_cursor := Inr (SequenceCursor None ?s (int (length bs))),
                   r_pos := t + int (length (drop (nat (t + 1)) bs))\<rparr>)"
    if "0 \<le> t" "t + 1 < int (length bs)"
  proof -
    let ?c = "SequenceCursor None ?s (t + 1)"
    have m: "min (t + 1) (int (length bs)) = t + 1" using that by simp
    have v: "valid ?c" using that by (simp add: valid_def cursor_length_def len)
    have ac: "advanceChunk ?c = Inr (False, SequenceCursor None ?s (int (length bs)))"
      using that
      by (simp add: advanceChunk_def set_idx_def cursor_length_def len advanceLocal_def)
    have "readCur ?c = Inr (drop (nat (t + 1)) bs, SequenceCursor None ?s (int (length bs)))"
      using that ac by (simp add: readCur_def indexInChunk_def Let_def)
    then show ?thesis using v lock unfolding m by (simp add: read_def)
  qed
  have 4: "read (r\<lparr>r_cursor := Inr (SequenceCursor None ?s (min (t + 1) (int (length bs)))),
                   r_pos := t\<rparr>) =
            Inr (ReadDone,
                 r\<lparr>r_cursor := Inr (SequenceCursor None ?s (min (t + 1) (int (length bs)))),
                   r_pos := t\<rparr>)"
    if "0 \<le> t" "int (length bs) \<le> t + 1"
  proof -
    have m: "min (t + 1) (int (length bs)) = int (length bs)" using that by simp
    have "\<not> valid (SequenceCursor None ?s (int (length bs)))"
      by (simp add: valid_def cursor_length_def len)
    then show ?thesis using lock unfolding m by (simp add: read_def)
  qed
  show ?thesis using 1 2 3 4 by blast
qed


text \<open>The bytes \<open>0 .. 999\<close>, each modulo 256, of the scenario "Blob read/seek".\<close>

definition bytes_0_999 :: "8 word list" where
  "bytes_0_999 = map of_nat [0..<1000]"

theorem seek_then_read_single_leaf_witness:
  "seek (getReader (Collection (BlobLeafSequence bytes_0_999 :: (nat, nat) Sequence))) 500 0
     = Inr (500, \<lparr>r_sequence = BlobLeafSequence bytes_0_999,
                   r_cursor = Inr (SequenceCursor None (BlobLeafSequence bytes_0_999) 501),
                   r_pos = 500, r_lock = []\<rparr>)
   \<and> read \<lparr>r_sequence = BlobLeafSequence bytes_0_999 :: (nat, nat) Sequence,
            r_cursor = Inr (SequenceCursor None (BlobLeafSequence bytes_0_999) 501),
            r_pos = 500, r_lock = []\<rparr>
     = Inr (ReadValue (drop 501 bytes_0_999),
            \<lparr>r_sequence = BlobLeafSequence bytes_0_999,
             r_cursor = Inr (SequenceCursor None (BlobLeafSequence bytes_0_999) 1000),
             r_pos = 999, r_lock = []\<rparr>)
   \<and> drop 501 bytes_0_999 ! 0 = of_nat 501
   \<and> seek (getReader (Collection (BlobLeafSequence bytes_0_999 :: (nat, nat) Sequence))) (- 100) 2
     = Inr (900, \<lparr>r_sequence = BlobLeafSequence bytes_0_999,
                   r_cursor = Inr (SequenceCursor None (BlobLeafSequence bytes_0_999) 901),
                   r_pos = 900, r_lock = []\<rparr>)
   \<and> seek (getReader (Collection (BlobLeafSequence bytes_0_999 :: (nat, nat) Sequence))) (- 1) 0
     = Inl InvariantError"
proof -
  let ?B = "BlobLeafSequence bytes_0_999 :: (nat, nat) Sequence"
  let ?R = "getReader (Collection ?B)"
  have L: "length bytes_0_999 = 1000" by (simp add: bytes_0_999_def)
  have lock: "r_lock ?R = []" and sq: "r_sequence ?R = BlobLeafSequence bytes_0_999"
    by (simp_all add: getReader_def)
  have a: "seek ?R 500 0
     = Inr (500, \<lparr>r_sequence = ?B, r_cursor = Inr (SequenceCursor None ?B 501),
                   r_pos = 500, r_lock = []\<rparr>)"
    and b: "read \<lparr>r_sequence = ?B, r_cursor = Inr (SequenceCursor None ?B 501),
                  r_pos = 500, r_lock = []\<rparr>
     = Inr (ReadValue (drop 501 bytes_0_999),
            \<lparr>r_sequence = ?B, r_cursor = Inr (SequenceCursor None ?B 1000),
             r_pos = 999, r_lock = []\<rparr>)"
    using seek_then_read_single_leaf [OF lock sq, of 0 500 500]
    by (simp_all add: L getReader_def)
  have c: "seek ?R (- 100) 2
     = Inr (900, \<lparr>r_sequence = ?B, r_cursor = Inr (SequenceCursor None ?B 901),
                   r_pos = 900, r_lock = []\<rparr>)"
    using seek_then_read_single_leaf [OF lock sq, of 2 900 "- 100"]
    by (simp add: L getReader_def)
  have d: "seek ?R (- 1) 0 = Inl InvariantError"
    using seek_then_read_single_leaf [OF lock sq, of 0 "- 1" "- 1"] by simp
  have e: "drop 501 bytes_0_999 ! 0 = of_nat 501"
    by (simp add: bytes_0_999_def)
  show ?thesis using a b c d e by simp
qed

text \<open>
  C2, as the code has it, on a List of one leaf. For an index \<open>i\<close> in range, \<^verbatim>\<open>get(i)\<close> reads the
  item at index \<open>i + 1\<close>, and fails the invariant of \<^verbatim>\<open>getCurrent\<close> when \<open>i\<close> is the last index;
  \<^verbatim>\<open>splice(i, deleteCount, ...)\<close> hands the chunker a cursor at index \<open>i + 1\<close>. On the list
  \<open>[10, 11, 12, 13, 14]\<close>, \<^verbatim>\<open>get(4)\<close> fails and \<^verbatim>\<open>get(2)\<close> is 13.
\<close>

theorem List_get_single_leaf:
  assumes "0 \<le> i" "i < int (length xs)"
  shows "List_get (Collection (ListLeafSequence xs)) i =
           (if i + 1 < int (length xs) then Inr (ValueItem (xs ! nat (i + 1)))
            else Inl InvariantError)
         \<and> List_splice chunkSequence (Collection (ListLeafSequence xs)) i deleteCount ins =
             splice_with chunkSequence (SequenceCursor None (ListLeafSequence xs) (i + 1))
               (map ValueItem ins) deleteCount"
proof -
  let ?s = "ListLeafSequence xs"
  have len: "seq_length ?s = int (length xs)" by (simp add: seq_length_def)
  have cur: "newCursorAtIndex ?s i = Inr (SequenceCursor None ?s (i + 1))"
    using newCursorAtIndex_leaf [of ?s i] assms by (simp add: len)
  have "List_get (Collection ?s) i = getCurrent (SequenceCursor None ?s (i + 1))"
    using assms cur by (simp add: List_get_def col_size_def js_less_def len)
  moreover have "getCurrent (SequenceCursor None ?s (i + 1)) =
           (if i + 1 < int (length xs) then Inr (ValueItem (xs ! nat (i + 1)))
            else Inl InvariantError)"
    using assms by (simp add: getCurrent_def valid_def cursor_length_def len array_get_def)
  moreover have "List_splice chunkSequence (Collection ?s) i deleteCount ins =
             splice_with chunkSequence (SequenceCursor None ?s (i + 1))
               (map ValueItem ins) deleteCount"
    using cur by (simp add: List_splice_def)
  ultimately show ?thesis by simp
qed

theorem List_get_single_leaf_witness:
  "List_get (Collection (ListLeafSequence
       [Prim 10, Prim 11, Prim 12, Prim 13, Prim (14::int)] :: (int, nat) Sequence)) 4
     = Inl InvariantError
   \<and> List_get (Collection (ListLeafSequence
       [Prim 10, Prim 11, Prim 12, Prim 13, Prim (14::int)] :: (int, nat) Sequence)) 2
     = Inr (ValueItem (Prim 13))"
  using List_get_single_leaf
      [of 4 "[Prim 10, Prim 11, Prim 12, Prim 13, Prim (14::int)] :: (int, nat) Value list"]
    List_get_single_leaf
      [of 2 "[Prim 10, Prim 11, Prim 12, Prim 13, Prim (14::int)] :: (int, nat) Value list"]
  by simp

end
